theory Spec2Isabelle
  imports Complex_Main "HOL-Library.Word"
begin

section \<open>Retail store inventory manager: the record store and its file codec\<close>

text \<open>
  This theory embeds \<^verbatim>\<open>src/inventory.c\<close>. The program keeps its items in the global
  array \<^verbatim>\<open>g_items[MAX_ITEMS]\<close> of which the first \<^verbatim>\<open>g_count\<close> entries are live; every
  function of the source reads and writes only that live prefix (all loops run over
  \<^verbatim>\<open>i < g_count\<close>), so the store is modelled as the list of the live entries and
  \<^verbatim>\<open>g_count\<close> is its length. Strings are C strings: lists of bytes without the
  terminating NUL. What a function prints is returned as a list of messages.
\<close>

subsection \<open>Constants\<close>

definition MAX_ITEMS :: nat where
  "MAX_ITEMS = 500"

definition MAX_NAME_LEN :: nat where
  "MAX_NAME_LEN = 64"

definition LINE_BUF :: nat where
  "LINE_BUF = 256"

subsection \<open>Data\<close>

text \<open>
  A C \<^verbatim>\<open>double\<close>: a finite value (an over-approximation, every real is allowed), an
  infinity or a NaN. \<open>dless\<close> is C's \<^verbatim>\<open><\<close> on doubles: every comparison with a NaN is
  false.
\<close>

datatype cdouble = Finite real | PosInf | NegInf | NaN

fun dless :: "cdouble \<Rightarrow> cdouble \<Rightarrow> bool" where
  "dless NaN _ = False"
| "dless _ NaN = False"
| "dless (Finite a) (Finite b) = (a < b)"
| "dless (Finite a) PosInf = True"
| "dless (Finite a) NegInf = False"
| "dless PosInf _ = False"
| "dless NegInf NegInf = False"
| "dless NegInf _ = True"

text \<open>
  The struct \<^verbatim>\<open>Item\<close>. \<^verbatim>\<open>int\<close> is a 32-bit two's complement integer, read by \<open>sint\<close>;
  where C leaves signed overflow undefined (\<^verbatim>\<open>quantity += qty\<close>) the model wraps around,
  as the compiled code does.
\<close>

record Item =
  name :: string
  quantity :: "32 word"
  price :: cdouble

text \<open>One constructor for each \<^verbatim>\<open>printf\<close> and \<^verbatim>\<open>fprintf(stderr, ...)\<close> of the core.\<close>

datatype msg =
    Info_NotFound
  | Error_CannotOpen
  | Warn_MaxCapacity
  | Warn_Malformed nat string
  | Warn_NameLength nat
  | Warn_Quantity nat string
  | Warn_Price nat string
  | Warn_Duplicate nat string
  | Info_Loaded nat
  | Error_CannotWrite
  | Info_Saved nat
  | Error_InvalidName
  | Error_QuantityNotPositive
  | Error_PriceNegative
  | Error_InventoryFull
  | Ok_Restocked string "32 word" cdouble
  | Ok_Added string "32 word" cdouble
  | Error_ItemNotFound string
  | Ok_Removed string
  | Error_QuantityNegative
  | Ok_Quantity string "32 word"

subsection \<open>Utility helpers\<close>

text \<open>\<^verbatim>\<open>isspace\<close> and \<^verbatim>\<open>tolower\<close> of the C locale (the program never calls \<^verbatim>\<open>setlocale\<close>).\<close>

definition isspace :: "char \<Rightarrow> bool" where
  "isspace c = (let n = (of_char c :: nat) in n = 32 \<or> (9 \<le> n \<and> n \<le> 13))"

definition tolower :: "char \<Rightarrow> char" where
  "tolower c =
     (case map_of (zip ''ABCDEFGHIJKLMNOPQRSTUVWXYZ'' ''abcdefghijklmnopqrstuvwxyz'') c of
        Some l \<Rightarrow> l
      | None \<Rightarrow> c)"

text \<open>\<^verbatim>\<open>trim\<close>: skip the leading white space, then cut the trailing white space.\<close>

definition trim :: "string \<Rightarrow> string" where
  "trim s = rev (dropWhile isspace (rev (dropWhile isspace s)))"

text \<open>
  \<^verbatim>\<open>strcasecmp\<close>: the first position where the lower-cased bytes differ decides; a string
  that ends first is the smaller one (POSIX fixes the sign of the result only).
\<close>

fun strcasecmp :: "string \<Rightarrow> string \<Rightarrow> int" where
  "strcasecmp [] [] = 0"
| "strcasecmp [] (b # bs) = - 1"
| "strcasecmp (a # as) [] = 1"
| "strcasecmp (a # as) (b # bs) =
     (if tolower a = tolower b then strcasecmp as bs
      else int (of_char (tolower a)) - int (of_char (tolower b)))"

text \<open>\<^verbatim>\<open>find_item\<close>: the loop \<^verbatim>\<open>for (i = 0; i < g_count; i++)\<close>, from index \<open>i\<close> on.\<close>

function find_item_from :: "Item list \<Rightarrow> string \<Rightarrow> nat \<Rightarrow> int" where
  "find_item_from items nm i =
     (if i < length items
      then (if strcasecmp (name (items ! i)) nm = 0 then int i
            else find_item_from items nm (i + 1))
      else - 1)"
  by pat_completeness auto
termination
  by (relation "measure (\<lambda>(items, nm, i). length items - i)") auto

declare find_item_from.simps [simp del]

definition find_item :: "Item list \<Rightarrow> string \<Rightarrow> int" where
  "find_item items nm = find_item_from items nm 0"

subsection \<open>Core inventory operations\<close>

text \<open>
  Every operation returns what the C function returns, the store after the call and the
  messages printed. The pointer argument of \<^verbatim>\<open>add_item\<close> is a string here, so its null
  test has no branch in the model.
\<close>

definition add_item :: "Item list \<Rightarrow> string \<Rightarrow> 32 word \<Rightarrow> cdouble \<Rightarrow> bool \<times> Item list \<times> msg list" where
  "add_item items nm qty p =
     (if length nm = 0 \<or> length nm \<ge> MAX_NAME_LEN then (False, items, [Error_InvalidName])
      else if sint qty \<le> 0 then (False, items, [Error_QuantityNotPositive])
      else if dless p (Finite 0) then (False, items, [Error_PriceNegative])
      else
        let idx = find_item items nm in
        if idx \<ge> 0 then
          let i = nat idx;
              it = (items ! i)\<lparr>quantity := quantity (items ! i) + qty, price := p\<rparr>
          in (True, items[i := it], [Ok_Restocked (name it) (quantity it) (price it)])
        else if length items \<ge> MAX_ITEMS then (False, items, [Error_InventoryFull])
        else (True,
              items @ [\<lparr>name = take (MAX_NAME_LEN - 1) nm, quantity = qty, price = p\<rparr>],
              [Ok_Added nm qty p]))"

text \<open>
  The shifting loop of \<^verbatim>\<open>remove_item\<close>,
  \<^verbatim>\<open>for (i = idx; i < g_count - 1; i++) g_items[i] = g_items[i + 1];\<close>
  and then \<^verbatim>\<open>g_count--\<close>, which drops the last live entry.
\<close>

function shift_left :: "Item list \<Rightarrow> nat \<Rightarrow> Item list" where
  "shift_left items i =
     (if i + 1 < length items then shift_left (items[i := items ! (i + 1)]) (i + 1)
      else items)"
  by pat_completeness auto
termination
  by (relation "measure (\<lambda>(items, i). length items - i)") auto

declare shift_left.simps [simp del]

definition remove_item :: "Item list \<Rightarrow> string \<Rightarrow> bool \<times> Item list \<times> msg list" where
  "remove_item items nm =
     (let idx = find_item items nm in
      if idx < 0 then (False, items, [Error_ItemNotFound nm])
      else (True, butlast (shift_left items (nat idx)), [Ok_Removed nm]))"

definition update_quantity :: "Item list \<Rightarrow> string \<Rightarrow> 32 word \<Rightarrow> bool \<times> Item list \<times> msg list" where
  "update_quantity items nm new_qty =
     (if sint new_qty < 0 then (False, items, [Error_QuantityNegative])
      else
        let idx = find_item items nm in
        if idx < 0 then (False, items, [Error_ItemNotFound nm])
        else (True, items[nat idx := (items ! nat idx)\<lparr>quantity := new_qty\<rparr>],
              [Ok_Quantity nm new_qty]))"

subsection \<open>The C library as the codec uses it\<close>

text \<open>
  A stream is the list of bytes still to be read. \<^verbatim>\<open>fgets(buf, n, fp)\<close> reads at most
  \<open>n - 1\<close> bytes and stops after a newline; it returns \<^verbatim>\<open>NULL\<close> (here \<open>None\<close>) at the
  end of the stream. The string functions see a buffer up to its first NUL byte.
\<close>

fun fgets_chars :: "nat \<Rightarrow> string \<Rightarrow> string \<times> string" where
  "fgets_chars 0 fp = ([], fp)"
| "fgets_chars (Suc n) [] = ([], [])"
| "fgets_chars (Suc n) (c # fp) =
     (if c = CHR 0x0A then ([c], fp)
      else (case fgets_chars n fp of (buf, fp') \<Rightarrow> (c # buf, fp')))"

definition fgets :: "nat \<Rightarrow> string \<Rightarrow> (string \<times> string) option" where
  "fgets n fp = (if fp = [] then None else Some (fgets_chars (n - 1) fp))"

definition c_str :: "string \<Rightarrow> string" where
  "c_str buf = takeWhile (\<lambda>c. c \<noteq> CHR 0x00) buf"

text \<open>
  \<^verbatim>\<open>strtok(s, ",")\<close>: skip the delimiters in front; no token if nothing is left; else the
  token runs to the next delimiter, and the scan resumes behind that delimiter. The
  result is the token and the string the next call \<^verbatim>\<open>strtok(NULL, ",")\<close> scans.
\<close>

definition strtok :: "string \<Rightarrow> string option \<times> string" where
  "strtok s =
     (let s1 = dropWhile (\<lambda>c. c = CHR '','') s in
      if s1 = [] then (None, [])
      else (Some (takeWhile (\<lambda>c. c \<noteq> CHR '','') s1),
            drop 1 (dropWhile (\<lambda>c. c \<noteq> CHR '','') s1)))"

text \<open>
  \<^verbatim>\<open>strtol(s, &ep, 10)\<close>: white space, an optional sign, decimal digits; the value is
  clamped to the range of \<^verbatim>\<open>long\<close> and \<open>ep\<close> is what follows the digits. Without a digit
  the value is 0 and \<open>ep\<close> is the whole of \<open>s\<close>. \<^verbatim>\<open>long\<close> has 32 bits on the program's
  platform (it includes \<^verbatim>\<open>windows.h\<close>); a wider \<^verbatim>\<open>long\<close> gives the same answers to the
  range tests of this program, whose bound 1000000 lies below both maxima.
\<close>

definition isdigit :: "char \<Rightarrow> bool" where
  "isdigit c = (c \<in> set ''0123456789'')"

definition digit_val :: "char \<Rightarrow> int" where
  "digit_val c = int (of_char c) - 48"

definition LONG_MAX :: int where
  "LONG_MAX = 2147483647"

definition LONG_MIN :: int where
  "LONG_MIN = - 2147483648"

definition strtol :: "string \<Rightarrow> int \<times> string" where
  "strtol s =
     (let s1 = dropWhile isspace s;
          neg = (s1 \<noteq> [] \<and> hd s1 = CHR ''-'');
          s2 = (if s1 \<noteq> [] \<and> (hd s1 = CHR ''-'' \<or> hd s1 = CHR ''+'') then tl s1 else s1);
          ds = takeWhile isdigit s2;
          v = foldl (\<lambda>a c. 10 * a + digit_val c) 0 ds
      in if ds = [] then (0, s)
         else (if neg then max LONG_MIN (- v) else min LONG_MAX v, dropWhile isdigit s2))"

text \<open>\<^verbatim>\<open>%d\<close> of \<^verbatim>\<open>printf\<close>.\<close>

function digits10 :: "nat \<Rightarrow> string" where
  "digits10 n =
     (if n < 10 then [''0123456789'' ! n]
      else digits10 (n div 10) @ [''0123456789'' ! (n mod 10)])"
  by pat_completeness auto
termination
  by (relation "measure id") auto

declare digits10.simps [simp del]

definition printf_d :: "int \<Rightarrow> string" where
  "printf_d i = (if i < 0 then CHR ''-'' # digits10 (nat (- i)) else digits10 (nat i))"

text \<open>
  Two library functions work on floating point and are parameters of the codec:
  \<open>strtod\<close>, which returns the value read and the rest of the string (\<^verbatim>\<open>*ep\<close> onwards),
  and \<open>printf_2f\<close>, the text \<^verbatim>\<open>%.2f\<close> prints. Every theorem holds for any pair of them.
\<close>

type_synonym strtod_fn = "string \<Rightarrow> cdouble \<times> string"
type_synonym printf_2f_fn = "cdouble \<Rightarrow> string"

subsection \<open>File I/O\<close>

text \<open>
  The body of the reading loop from \<^verbatim>\<open>/* Parse: name , quantity , price */\<close> to
  \<^verbatim>\<open>/* Commit record */\<close>: the store after the line and the warning printed, if any.
\<close>

definition load_record :: "strtod_fn \<Rightarrow> nat \<Rightarrow> string \<Rightarrow> Item list \<Rightarrow> Item list \<times> msg list" where
  "load_record strtod lineno line items =
     (let tmp = take (LINE_BUF - 1) line;
          (tok_name, rest1) = strtok tmp;
          (tok_qty, rest2) = strtok rest1;
          (tok_price, rest3) = strtok rest2
      in case (tok_name, tok_qty, tok_price) of
           (Some n0, Some q0, Some p0) \<Rightarrow>
             let tok_name = trim n0; tok_qty = trim q0; tok_price = trim p0 in
             if length tok_name = 0 \<or> length tok_name \<ge> MAX_NAME_LEN
             then (items, [Warn_NameLength lineno])
             else
               let (lqty, ep) = strtol tok_qty in
               if ep \<noteq> [] \<or> lqty < 0 \<or> lqty > 1000000
               then (items, [Warn_Quantity lineno tok_qty])
               else
                 let (price, ep) = strtod tok_price in
                 if ep \<noteq> [] \<or> dless price (Finite 0) \<or> dless (Finite 1000000000) price
                 then (items, [Warn_Price lineno tok_price])
                 else if find_item items tok_name \<ge> 0
                 then (items, [Warn_Duplicate lineno tok_name])
                 else (items @ [\<lparr>name = take (MAX_NAME_LEN - 1) tok_name,
                                  quantity = word_of_int lqty, price = price\<rparr>], [])
         | _ \<Rightarrow> (items, [Warn_Malformed lineno line]))"

text \<open>Every line read shortens the stream, so the reading loop ends.\<close>

lemma fgets_chars_length:
  "fgets_chars n fp = (buf, fp') \<Longrightarrow> length buf + length fp' = length fp"
  by (induction n fp arbitrary: buf fp' rule: fgets_chars.induct)
     (auto split: if_splits prod.splits)

lemma fgets_chars_progress:
  "fgets_chars (Suc n) (c # fp) = (buf, fp') \<Longrightarrow> buf \<noteq> []"
  by (auto split: if_splits prod.splits)

lemma fgets_shorter:
  assumes "fgets LINE_BUF fp = Some (buf, fp')"
  shows "length fp' < length fp"
proof -
  from assms obtain c cs where fp: "fp = c # cs"
    by (cases fp) (auto simp: fgets_def)
  with assms have eq: "fgets_chars (Suc 254) (c # cs) = (buf, fp')"
    by (simp add: fgets_def LINE_BUF_def)
  then have "buf \<noteq> []" by (rule fgets_chars_progress)
  moreover have "length buf + length fp' = length fp"
    using eq fp fgets_chars_length by blast
  ultimately show ?thesis by (cases buf) auto
qed

text \<open>
  The loop \<^verbatim>\<open>while (fgets(line, sizeof line, fp))\<close>. It returns the stream where the loop
  left it, \<^verbatim>\<open>lineno\<close>, the store and the messages; the argument \<open>lineno\<close> is the count
  before the line is read. \<^verbatim>\<open>lineno\<close> is only printed; it is a natural number here (the
  \<^verbatim>\<open>int\<close> of the source would need a file of \<open>2^31\<close> lines to overflow).
\<close>

function load_loop ::
  "strtod_fn \<Rightarrow> string \<Rightarrow> nat \<Rightarrow> Item list \<Rightarrow> msg list \<Rightarrow> string \<times> nat \<times> Item list \<times> msg list" where
  "load_loop strtod fp lineno items out =
     (case fgets LINE_BUF fp of
        None \<Rightarrow> (fp, lineno, items, out)
      | Some (buf, fp') \<Rightarrow>
          let line = trim (c_str buf) in
          if line = [] \<or> hd line = CHR ''#'' then load_loop strtod fp' (lineno + 1) items out
          else if length items \<ge> MAX_ITEMS
          then (fp', lineno + 1, items, out @ [Warn_MaxCapacity])
          else
            (case load_record strtod (lineno + 1) line items of
               (items', warn) \<Rightarrow> load_loop strtod fp' (lineno + 1) items' (out @ warn)))"
  by pat_completeness auto
termination
  by (relation "measure (\<lambda>(strtod, fp, lineno, items, out). length fp)")
     (auto dest: fgets_shorter)

declare load_loop.simps [simp del]

text \<open>
  \<^verbatim>\<open>fopen\<close> either fails with an \<^verbatim>\<open>errno\<close> or gives the stream of the file's bytes.
  \<^verbatim>\<open>load_inventory\<close> resets \<^verbatim>\<open>g_count\<close> only after the file is open.
\<close>

datatype errno = ENOENT | EOTHER

definition load_inventory ::
  "strtod_fn \<Rightarrow> errno + string \<Rightarrow> Item list \<Rightarrow> bool \<times> Item list \<times> msg list" where
  "load_inventory strtod fopen_r items =
     (case fopen_r of
        Inl e \<Rightarrow>
          if e = ENOENT then (True, items, [Info_NotFound])
          else (False, items, [Error_CannotOpen])
      | Inr fp \<Rightarrow>
          (case load_loop strtod fp 0 [] [] of
             (fp', lineno, items', out) \<Rightarrow> (True, items', out @ [Info_Loaded (length items')])))"

text \<open>
  \<^verbatim>\<open>save_inventory\<close>: \<open>fopen_w\<close> tells whether the file opens for writing. The result is
  what the function returns, the bytes written (if the file opened) and the messages.
  The header line holds an en dash, three bytes in UTF-8.
\<close>

definition file_header :: string where
  "file_header = ''# Retail Inventory '' @ [CHR 0xE2, CHR 0x80, CHR 0x93] @
     '' format: name,quantity,price'' @ [CHR 0x0A]"

definition save_line :: "printf_2f_fn \<Rightarrow> Item \<Rightarrow> string" where
  "save_line printf_2f it =
     name it @ '','' @ printf_d (sint (quantity it)) @ '','' @ printf_2f (price it) @ [CHR 0x0A]"

definition save_inventory ::
  "printf_2f_fn \<Rightarrow> bool \<Rightarrow> Item list \<Rightarrow> bool \<times> string option \<times> msg list" where
  "save_inventory printf_2f fopen_w items =
     (if \<not> fopen_w then (False, None, [Error_CannotWrite])
      else (True, Some (file_header @ concat (map (save_line printf_2f) items)),
            [Info_Saved (length items)]))"

subsection \<open>Sequences of operations\<close>

datatype operation =
    Add string "32 word" cdouble
  | Remove string
  | SetQuantity string "32 word"
  | Load "errno + string"

fun apply_operation :: "strtod_fn \<Rightarrow> Item list \<Rightarrow> operation \<Rightarrow> Item list" where
  "apply_operation strtod items (Add nm qty p) = fst (snd (add_item items nm qty p))"
| "apply_operation strtod items (Remove nm) = fst (snd (remove_item items nm))"
| "apply_operation strtod items (SetQuantity nm qty) = fst (snd (update_quantity items nm qty))"
| "apply_operation strtod items (Load fopen_r) = fst (snd (load_inventory strtod fopen_r items))"

definition run :: "strtod_fn \<Rightarrow> operation list \<Rightarrow> Item list" where
  "run strtod ops = foldl (apply_operation strtod) [] ops"

subsection \<open>Store invariants\<close>

text \<open>
  At most one item for each name, compared without case; every stored name has between
  1 and \<open>MAX_NAME_LEN - 1\<close> bytes; at most \<open>MAX_ITEMS\<close> items. Every sequence of
  operations keeps them (\<open>run_inv\<close> below).
\<close>

definition unique_names :: "Item list \<Rightarrow> bool" where
  "unique_names items = distinct (map (\<lambda>it. map tolower (name it)) items)"

definition valid_names :: "Item list \<Rightarrow> bool" where
  "valid_names items = list_all (\<lambda>it. 0 < length (name it) \<and> length (name it) < MAX_NAME_LEN) items"

definition store_inv :: "Item list \<Rightarrow> bool" where
  "store_inv items = (unique_names items \<and> valid_names items \<and> length items \<le> MAX_ITEMS)"

subsection \<open>Reference instances of the floating-point parameters\<close>

text \<open>
  To run the codec on a concrete file the two parameters need values. \<open>strtod_dec\<close> reads
  a plain decimal numeral (sign, digits, fraction) exactly; \<open>printf_2f_dec\<close> prints a
  value rounded to two decimals. On the numerals used below (such as \<^verbatim>\<open>1.00\<close> and
  \<^verbatim>\<open>2.50\<close>, which binary floating point represents exactly) they agree with the
  C library. \<open>numbered_items n\<close> is a store of \<open>n\<close> items named 0, 1, 2 and so on,
  and \<open>numbered_file n\<close> holds the lines \<^verbatim>\<open>save_inventory\<close> writes for them.
\<close>

definition decimal_value :: "string \<Rightarrow> nat" where
  "decimal_value ds = foldl (\<lambda>a c. 10 * a + nat (digit_val c)) 0 ds"

definition strtod_dec :: strtod_fn where
  "strtod_dec s =
     (let s1 = dropWhile isspace s;
          neg = (s1 \<noteq> [] \<and> hd s1 = CHR ''-'');
          s2 = (if s1 \<noteq> [] \<and> (hd s1 = CHR ''-'' \<or> hd s1 = CHR ''+'') then tl s1 else s1);
          ip = takeWhile isdigit s2;
          r = dropWhile isdigit s2;
          fp = (if r \<noteq> [] \<and> hd r = CHR ''.'' then takeWhile isdigit (tl r) else []);
          ep = (if r \<noteq> [] \<and> hd r = CHR ''.'' then dropWhile isdigit (tl r) else r);
          v = real (decimal_value ip) + real (decimal_value fp) / 10 ^ length fp
      in if ip = [] \<and> fp = [] then (Finite 0, s)
         else (Finite (if neg then - v else v), ep))"

definition printf_2f_dec :: printf_2f_fn where
  "printf_2f_dec d =
     (case d of
        Finite r \<Rightarrow>
          (let n = nat \<lfloor>\<bar>r\<bar> * 100 + 1 / 2\<rfloor> in
           (if r < 0 then ''-'' else []) @ digits10 (n div 100) @ ''.'' @
           [''0123456789'' ! (n div 10 mod 10), ''0123456789'' ! (n mod 10)])
      | PosInf \<Rightarrow> ''inf''
      | NegInf \<Rightarrow> ''-inf''
      | NaN \<Rightarrow> ''nan'')"

definition numbered_items :: "nat \<Rightarrow> Item list" where
  "numbered_items n = map (\<lambda>i. \<lparr>name = digits10 i, quantity = 1, price = Finite 1\<rparr>) [0..<n]"

definition numbered_file :: "nat \<Rightarrow> string" where
  "numbered_file n = concat (map (save_line printf_2f_dec) (numbered_items n))"

subsection \<open>Notions of the specification\<close>

text \<open>
  The fields of a line in the specification's sense: the pieces between the commas, the
  empty ones included.
\<close>

fun split_commas :: "string \<Rightarrow> string list" where
  "split_commas [] = [[]]"
| "split_commas (c # cs) =
     (if c = CHR '','' then [] # split_commas cs
      else (case split_commas cs of [] \<Rightarrow> [[c]] | f # fs \<Rightarrow> (c # f) # fs))"

definition nonempty_fields :: "string \<Rightarrow> string list" where
  "nonempty_fields line = filter (\<lambda>f. f \<noteq> []) (split_commas line)"

text \<open>
  The valid records of a file in the specification's sense: what the reading loop
  accepts when capacity is left out of it. It is the loop of \<open>load_loop\<close> without the
  capacity test, and it returns the store only.
\<close>

function valid_records_from :: "strtod_fn \<Rightarrow> string \<Rightarrow> nat \<Rightarrow> Item list \<Rightarrow> Item list" where
  "valid_records_from strtod fp lineno items =
     (case fgets LINE_BUF fp of
        None \<Rightarrow> items
      | Some (buf, fp') \<Rightarrow>
          let line = trim (c_str buf) in
          if line = [] \<or> hd line = CHR ''#'' then valid_records_from strtod fp' (lineno + 1) items
          else valid_records_from strtod fp' (lineno + 1)
                 (fst (load_record strtod (lineno + 1) line items)))"
  by pat_completeness auto
termination
  by (relation "measure (\<lambda>(strtod, fp, lineno, items). length fp)")
     (auto dest: fgets_shorter)

declare valid_records_from.simps [simp del]

definition valid_records :: "strtod_fn \<Rightarrow> string \<Rightarrow> Item list" where
  "valid_records strtod fp = valid_records_from strtod fp 0 []"

text \<open>
  Items that survive a round trip through the file: the name has no comma, line break or
  NUL, no white space at either end and no \<^verbatim>\<open>#\<close> in front; the quantity is one that
  \<^verbatim>\<open>load_inventory\<close> accepts; the text printed for the price has no comma or white space
  and \<open>strtod\<close> reads all of it as a price that \<^verbatim>\<open>load_inventory\<close> accepts; the line fits
  the line buffer. \<open>reread\<close> is the item as it comes back.
\<close>

definition plain_char :: "char \<Rightarrow> bool" where
  "plain_char c = (c \<noteq> CHR '','' \<and> c \<noteq> CHR 0x0A \<and> c \<noteq> CHR 0x00)"

definition clean_name :: "string \<Rightarrow> bool" where
  "clean_name nm =
     (nm \<noteq> [] \<and> length nm < MAX_NAME_LEN \<and> \<not> isspace (hd nm) \<and> \<not> isspace (last nm) \<and>
      hd nm \<noteq> CHR ''#'' \<and> list_all plain_char nm)"

definition reads_back :: "strtod_fn \<Rightarrow> printf_2f_fn \<Rightarrow> cdouble \<Rightarrow> bool" where
  "reads_back strtod printf_2f p =
     (let t = printf_2f p in
      t \<noteq> [] \<and> list_all (\<lambda>c. plain_char c \<and> \<not> isspace c) t \<and> snd (strtod t) = [] \<and>
      \<not> dless (fst (strtod t)) (Finite 0) \<and> \<not> dless (Finite 1000000000) (fst (strtod t)))"

definition saveable :: "strtod_fn \<Rightarrow> printf_2f_fn \<Rightarrow> Item \<Rightarrow> bool" where
  "saveable strtod printf_2f it =
     (clean_name (name it) \<and> 0 \<le> sint (quantity it) \<and> sint (quantity it) \<le> 1000000 \<and>
      reads_back strtod printf_2f (price it) \<and> length (save_line printf_2f it) < LINE_BUF)"

definition reread :: "strtod_fn \<Rightarrow> printf_2f_fn \<Rightarrow> Item \<Rightarrow> Item" where
  "reread strtod printf_2f it = it\<lparr>price := fst (strtod (printf_2f (price it)))\<rparr>"

text \<open>The line \<^verbatim>\<open>save_inventory\<close> writes for an item, without its newline.\<close>

definition record_text :: "printf_2f_fn \<Rightarrow> Item \<Rightarrow> string" where
  "record_text printf_2f it =
     name it @ CHR '','' # printf_d (sint (quantity it)) @ CHR '','' # printf_2f (price it)"

section \<open>Lookup and removal\<close>

lemma strcasecmp_0_iff: "strcasecmp a b = 0 \<longleftrightarrow> map tolower a = map tolower b"
  by (induction a b rule: strcasecmp.induct) auto

lemma find_item_from_spec:
  "(find_item_from items nm i = - 1 \<and>
      (\<forall>j. i \<le> j \<and> j < length items \<longrightarrow> strcasecmp (name (items ! j)) nm \<noteq> 0)) \<or>
   (\<exists>k. find_item_from items nm i = int k \<and> i \<le> k \<and> k < length items \<and>
      strcasecmp (name (items ! k)) nm = 0 \<and>
      (\<forall>j. i \<le> j \<and> j < k \<longrightarrow> strcasecmp (name (items ! j)) nm \<noteq> 0))"
proof (induction items nm i rule: find_item_from.induct)
  case (1 items nm i)
  show ?case
  proof (cases "i < length items")
    case False
    then have "find_item_from items nm i = - 1"
      by (subst find_item_from.simps) simp
    with False show ?thesis by simp
  next
    case True
    show ?thesis
    proof (cases "strcasecmp (name (items ! i)) nm = 0")
      case m: True
      with True have "find_item_from items nm i = int i"
        by (subst find_item_from.simps) simp
      with True m show ?thesis by auto
    next
      case m: False
      have step: "find_item_from items nm i = find_item_from items nm (i + 1)"
        using True m by (subst find_item_from.simps) simp
      have ext: "strcasecmp (name (items ! j)) nm \<noteq> 0"
        if "i \<le> j" and "\<forall>j'. i + 1 \<le> j' \<and> j' < b \<longrightarrow> strcasecmp (name (items ! j')) nm \<noteq> 0" and "j < b"
        for j b
      proof (cases "j = i")
        case True with m show ?thesis by simp
      next
        case False
        with that have "i + 1 \<le> j \<and> j < b" by simp
        with that show ?thesis by blast
      qed
      from "1.IH"[OF True m] show ?thesis
      proof
        assume a: "find_item_from items nm (i + 1) = - 1 \<and>
          (\<forall>j. i + 1 \<le> j \<and> j < length items \<longrightarrow> strcasecmp (name (items ! j)) nm \<noteq> 0)"
        then have "\<forall>j. i \<le> j \<and> j < length items \<longrightarrow> strcasecmp (name (items ! j)) nm \<noteq> 0"
          using ext by blast
        with a step show ?thesis by simp
      next
        assume "\<exists>k. find_item_from items nm (i + 1) = int k \<and> i + 1 \<le> k \<and> k < length items \<and>
          strcasecmp (name (items ! k)) nm = 0 \<and>
          (\<forall>j. i + 1 \<le> j \<and> j < k \<longrightarrow> strcasecmp (name (items ! j)) nm \<noteq> 0)"
        then obtain k where k: "find_item_from items nm (i + 1) = int k" "i + 1 \<le> k" "k < length items"
          "strcasecmp (name (items ! k)) nm = 0"
          "\<forall>j. i + 1 \<le> j \<and> j < k \<longrightarrow> strcasecmp (name (items ! j)) nm \<noteq> 0"
          by blast
        have "\<forall>j. i \<le> j \<and> j < k \<longrightarrow> strcasecmp (name (items ! j)) nm \<noteq> 0"
          using ext k(5) by blast
        with k step show ?thesis by auto
      qed
    qed
  qed
qed

lemma find_item_spec:
  "(find_item items nm = - 1 \<and> (\<forall>j < length items. strcasecmp (name (items ! j)) nm \<noteq> 0)) \<or>
   (\<exists>k. find_item items nm = int k \<and> k < length items \<and>
      strcasecmp (name (items ! k)) nm = 0 \<and>
      (\<forall>j < k. strcasecmp (name (items ! j)) nm \<noteq> 0))"
  using find_item_from_spec[of items nm 0] by (simp add: find_item_def)

lemma find_item_absent:
  assumes "\<forall>j < length items. strcasecmp (name (items ! j)) nm \<noteq> 0"
  shows "find_item items nm = - 1"
  using find_item_spec[of items nm] assms by auto

lemma find_item_first:
  assumes "k < length items" "strcasecmp (name (items ! k)) nm = 0"
    "\<forall>j < k. strcasecmp (name (items ! j)) nm \<noteq> 0"
  shows "find_item items nm = int k"
proof -
  from find_item_spec[of items nm] assms(1,2)
  obtain k' where k': "find_item items nm = int k'" "k' < length items"
    "strcasecmp (name (items ! k')) nm = 0" "\<forall>j < k'. strcasecmp (name (items ! j)) nm \<noteq> 0"
    by auto
  have "\<not> k' < k" using assms(3) k'(3) by blast
  moreover have "\<not> k < k'" using assms(2) k'(4) by blast
  ultimately show ?thesis using k'(1) by simp
qed

lemma unique_names_match:
  assumes "unique_names items" "i < length items" "j < length items"
    "strcasecmp (name (items ! i)) nm = 0" "strcasecmp (name (items ! j)) nm = 0"
  shows "i = j"
proof -
  let ?ks = "map (\<lambda>it. map tolower (name it)) items"
  have d: "distinct ?ks" using assms(1) by (simp add: unique_names_def)
  have "map tolower (name (items ! i)) = map tolower (name (items ! j))"
    using assms(4,5) by (simp add: strcasecmp_0_iff)
  then have "?ks ! i = ?ks ! j"
    using assms(2,3) by simp
  moreover have "i < length ?ks" "j < length ?ks" using assms(2,3) by simp_all
  ultimately show ?thesis using d nth_eq_iff_index_eq by blast
qed

lemma find_item_unique:
  assumes "unique_names items" "i < length items" "strcasecmp (name (items ! i)) nm = 0"
  shows "find_item items nm = int i"
proof (rule find_item_first[OF assms(2,3)], intro allI impI)
  fix j assume "j < i"
  then have "j < length items" "j \<noteq> i" using assms(2) by auto
  then show "strcasecmp (name (items ! j)) nm \<noteq> 0"
    using unique_names_match[OF assms(1) _ assms(2) _ assms(3), of j] by blast
qed

lemma shift_left_eq:
  "i < length items \<Longrightarrow>
     shift_left items i = take i items @ drop (Suc i) items @ [items ! (length items - 1)]"
proof (induction items i rule: shift_left.induct)
  case (1 items i)
  show ?case
  proof (cases "i + 1 < length items")
    case False
    with "1.prems" have i: "Suc i = length items" by simp
    then have li: "length items - 1 = i" by simp
    have "take (Suc i) items = take i items @ [items ! i]"
      using "1.prems" by (rule take_Suc_conv_app_nth)
    moreover have "take (Suc i) items = items" using i by simp
    ultimately have "take i items @ [items ! i] = items" by simp
    moreover have "drop (Suc i) items = []" using i by simp
    moreover have "shift_left items i = items"
      using False by (subst shift_left.simps) simp
    ultimately show ?thesis unfolding li by simp
  next
    case True
    let ?items' = "items[i := items ! (i + 1)]"
    have "shift_left items i = shift_left ?items' (i + 1)"
      using True by (subst shift_left.simps) simp
    also have "\<dots> = take (i + 1) ?items' @ drop (Suc (i + 1)) ?items' @ [?items' ! (length ?items' - 1)]"
      using "1.IH"[OF True] True by simp
    also have "take (i + 1) ?items' = take i items @ [items ! (i + 1)]"
      using True by (simp add: take_Suc_conv_app_nth)
    also have "drop (Suc (i + 1)) ?items' = drop (Suc (i + 1)) items"
      by simp
    also have "?items' ! (length ?items' - 1) = items ! (length items - 1)"
      using True by simp
    also have "(take i items @ [items ! (i + 1)]) @ drop (Suc (i + 1)) items @ [items ! (length items - 1)]
        = take i items @ drop (Suc i) items @ [items ! (length items - 1)]"
      using True by (simp add: Cons_nth_drop_Suc)
    finally show ?thesis .
  qed
qed

lemma butlast_shift_left:
  assumes "i < length items"
  shows "butlast (shift_left items i) = take i items @ drop (Suc i) items"
proof -
  have "butlast (shift_left items i)
      = butlast ((take i items @ drop (Suc i) items) @ [items ! (length items - 1)])"
    by (simp only: shift_left_eq[OF assms] append_assoc)
  also have "\<dots> = take i items @ drop (Suc i) items"
    by (rule butlast_snoc)
  finally show ?thesis .
qed

lemma find_item_absent_set:
  assumes "\<forall>it \<in> set items. strcasecmp (name it) nm \<noteq> 0"
  shows "find_item items nm = - 1"
  using assms by (intro find_item_absent) simp

text \<open>
  Claim C4. In a store with unique names, \<^verbatim>\<open>remove_item\<close> called with a name that
  matches the item at position \<open>i\<close> without case returns true and leaves the items
  before \<open>i\<close> followed by the items after \<open>i\<close>, in their order: each successor moves
  one position to the left and nothing else changes. Called with a name that matches no
  item it returns false with the not-found message and leaves the store as it was.
\<close>

theorem remove_item_order_preserving:
  "(unique_names items \<and> i < length items \<and> strcasecmp (name (items ! i)) nm = 0 \<longrightarrow>
      remove_item items nm = (True, take i items @ drop (Suc i) items, [Ok_Removed nm])) \<and>
   ((\<forall>it \<in> set items. strcasecmp (name it) nm \<noteq> 0) \<longrightarrow>
      remove_item items nm = (False, items, [Error_ItemNotFound nm]))"
proof (intro conjI impI)
  assume a: "unique_names items \<and> i < length items \<and> strcasecmp (name (items ! i)) nm = 0"
  then have "find_item items nm = int i" by (simp add: find_item_unique)
  with a show "remove_item items nm = (True, take i items @ drop (Suc i) items, [Ok_Removed nm])"
    by (simp add: remove_item_def butlast_shift_left)
next
  assume "\<forall>it \<in> set items. strcasecmp (name it) nm \<noteq> 0"
  then have "find_item items nm = - 1" by (rule find_item_absent_set)
  then show "remove_item items nm = (False, items, [Error_ItemNotFound nm])"
    by (simp add: remove_item_def)
qed

theorem remove_item_order_preserving_witness:
  "remove_item
     [\<lparr>name = ''A'', quantity = 1, price = Finite 1\<rparr>, \<lparr>name = ''B'', quantity = 2, price = Finite 2\<rparr>,
      \<lparr>name = ''C'', quantity = 3, price = Finite 3\<rparr>, \<lparr>name = ''D'', quantity = 4, price = Finite 4\<rparr>] ''b''
   = (True,
     [\<lparr>name = ''A'', quantity = 1, price = Finite 1\<rparr>, 
      \<lparr>name = ''C'', quantity = 3, price = Finite 3\<rparr>, \<lparr>name = ''D'', quantity = 4, price = Finite 4\<rparr>], [Ok_Removed ''b''])
   \<and> remove_item
     [\<lparr>name = ''A'', quantity = 1, price = Finite 1\<rparr>, \<lparr>name = ''B'', quantity = 2, price = Finite 2\<rparr>,
      \<lparr>name = ''C'', quantity = 3, price = Finite 3\<rparr>, \<lparr>name = ''D'', quantity = 4, price = Finite 4\<rparr>] ''z''
   = (False, [\<lparr>name = ''A'', quantity = 1, price = Finite 1\<rparr>, \<lparr>name = ''B'', quantity = 2, price = Finite 2\<rparr>,
      \<lparr>name = ''C'', quantity = 3, price = Finite 3\<rparr>, \<lparr>name = ''D'', quantity = 4, price = Finite 4\<rparr>], [Error_ItemNotFound ''z''])"
  using remove_item_order_preserving[of "[\<lparr>name = ''A'', quantity = 1, price = Finite 1\<rparr>, \<lparr>name = ''B'', quantity = 2, price = Finite 2\<rparr>,
      \<lparr>name = ''C'', quantity = 3, price = Finite 3\<rparr>, \<lparr>name = ''D'', quantity = 4, price = Finite 4\<rparr>]" 1 "''b''"]
    remove_item_order_preserving[of "[\<lparr>name = ''A'', quantity = 1, price = Finite 1\<rparr>, \<lparr>name = ''B'', quantity = 2, price = Finite 2\<rparr>,
      \<lparr>name = ''C'', quantity = 3, price = Finite 3\<rparr>, \<lparr>name = ''D'', quantity = 4, price = Finite 4\<rparr>]" 1 "''z''"]
  by (simp add: unique_names_def tolower_def)

section \<open>Invariants of the store\<close>

lemma take_name_id: "length nm < MAX_NAME_LEN \<Longrightarrow> take (MAX_NAME_LEN - Suc 0) nm = nm"
  by simp

lemma unique_names_snoc:
  assumes "unique_names items" "find_item items (name it) < 0"
  shows "unique_names (items @ [it])"
proof -
  from find_item_spec[of items "name it"] assms(2)
  have "\<forall>j < length items. strcasecmp (name (items ! j)) (name it) \<noteq> 0" by auto
  then have "\<forall>x \<in> set items. map tolower (name x) \<noteq> map tolower (name it)"
    by (auto simp: strcasecmp_0_iff in_set_conv_nth)
  then have "map tolower (name it) \<notin> set (map (\<lambda>it. map tolower (name it)) items)"
    by auto
  with assms(1) show ?thesis by (simp add: unique_names_def)
qed

lemma valid_names_snoc:
  assumes "valid_names items" "0 < length (name it)" "length (name it) < MAX_NAME_LEN"
  shows "valid_names (items @ [it])"
  using assms by (simp add: valid_names_def)

lemma store_inv_snoc:
  assumes "store_inv items" "find_item items (name it) < 0" "0 < length (name it)"
    "length (name it) < MAX_NAME_LEN" "length items < MAX_ITEMS"
  shows "store_inv (items @ [it])"
proof -
  have "unique_names (items @ [it])"
    using assms(1,2) by (intro unique_names_snoc) (simp_all only: store_inv_def)
  moreover have "valid_names (items @ [it])"
    using assms(1,3,4) by (intro valid_names_snoc) (simp_all only: store_inv_def)
  ultimately show ?thesis using assms(5) by (simp add: store_inv_def)
qed

lemma map_name_update:
  assumes "i < length items" "name it = name (items ! i)"
  shows "map name (items[i := it]) = map name items"
  using assms by (simp add: map_update list_update_same_conv)

lemma unique_names_map_name:
  "map name items' = map name items \<Longrightarrow> unique_names items' = unique_names items"
proof -
  assume a: "map name items' = map name items"
  have "map (\<lambda>it. map tolower (name it)) xs = map (map tolower) (map name xs)" for xs :: "Item list"
    by simp
  with a show ?thesis unfolding unique_names_def by metis
qed

lemma valid_names_map_name:
  "map name items' = map name items \<Longrightarrow> valid_names items' = valid_names items"
proof -
  assume a: "map name items' = map name items"
  have "valid_names xs = list_all (\<lambda>n. 0 < length n \<and> length n < MAX_NAME_LEN) (map name xs)" for xs
    by (simp add: valid_names_def list_all_iff)
  with a show ?thesis by simp
qed

lemma store_inv_update:
  assumes "store_inv items" "i < length items" "name it = name (items ! i)"
  shows "store_inv (items[i := it])"
  using assms unique_names_map_name[OF map_name_update[OF assms(2,3)]]
    valid_names_map_name[OF map_name_update[OF assms(2,3)]]
  by (simp add: store_inv_def)

lemma find_item_nonneg:
  assumes "0 \<le> find_item items nm"
  shows "nat (find_item items nm) < length items"
  using find_item_spec[of items nm] assms by auto

lemma add_item_inv:
  assumes "store_inv items"
  shows "store_inv (fst (snd (add_item items nm q p)))"
proof (cases "0 \<le> find_item items nm")
  case True
  then have "nat (find_item items nm) < length items" by (rule find_item_nonneg)
  then have "store_inv (items[nat (find_item items nm) := (items ! nat (find_item items nm))
      \<lparr>quantity := quantity (items ! nat (find_item items nm)) + q, price := p\<rparr>])"
    using assms by (intro store_inv_update) simp_all
  with True assms show ?thesis by (simp add: add_item_def Let_def)
next
  case False
  then have neg: "find_item items nm < 0" by simp
  show ?thesis
  proof (cases "0 < length nm \<and> length nm < MAX_NAME_LEN \<and> length items < MAX_ITEMS")
    case True
    with assms neg have "store_inv (items @ [\<lparr>name = nm, quantity = q, price = p\<rparr>])"
      by (intro store_inv_snoc) simp_all
    with neg True assms show ?thesis by (simp add: add_item_def Let_def take_name_id)
  next
    case False
    with assms neg show ?thesis by (auto simp: add_item_def Let_def)
  qed
qed

lemma update_quantity_inv:
  assumes "store_inv items"
  shows "store_inv (fst (snd (update_quantity items nm q)))"
proof (cases "0 \<le> find_item items nm")
  case True
  then have "nat (find_item items nm) < length items" by (rule find_item_nonneg)
  then have "store_inv (items[nat (find_item items nm) := (items ! nat (find_item items nm))\<lparr>quantity := q\<rparr>])"
    using assms by (intro store_inv_update) simp_all
  with True assms show ?thesis by (simp add: update_quantity_def Let_def)
next
  case False
  with assms show ?thesis by (simp add: update_quantity_def Let_def)
qed

lemma distinct_remove_nth:
  assumes "distinct ys"
  shows "distinct (take k ys @ drop (Suc k) ys)"
proof -
  have "set (take k ys) \<inter> set (drop k ys) = {}"
    using assms by (metis append_take_drop_id distinct_append)
  moreover have "set (drop (Suc k) ys) \<subseteq> set (drop k ys)"
    by (rule set_drop_subset_set_drop) simp
  ultimately have "set (take k ys) \<inter> set (drop (Suc k) ys) = {}" by blast
  with assms show ?thesis by (simp add: distinct_take distinct_drop)
qed

lemma store_inv_remove_nth:
  assumes "store_inv items"
  shows "store_inv (take k items @ drop (Suc k) items)"
proof -
  have "unique_names (take k items @ drop (Suc k) items)"
    using assms distinct_remove_nth[of "map (\<lambda>it. map tolower (name it)) items" k]
    by (simp add: store_inv_def unique_names_def take_map drop_map)
  moreover have "valid_names (take k items @ drop (Suc k) items)"
    using assms 
    by (auto simp: store_inv_def valid_names_def list_all_iff dest: in_set_takeD in_set_dropD)
  moreover have "length (take k items @ drop (Suc k) items) \<le> length items"
    by (simp add: min_def)
  then have "length (take k items @ drop (Suc k) items) \<le> MAX_ITEMS"
    using assms by (simp only: store_inv_def) linarith
  ultimately show ?thesis by (simp add: store_inv_def)
qed

lemma remove_item_inv:
  assumes "store_inv items"
  shows "store_inv (fst (snd (remove_item items nm)))"
proof (cases "0 \<le> find_item items nm")
  case True
  then have "nat (find_item items nm) < length items" by (rule find_item_nonneg)
  then have "butlast (shift_left items (nat (find_item items nm)))
      = take (nat (find_item items nm)) items @ drop (Suc (nat (find_item items nm))) items"
    by (rule butlast_shift_left)
  with True assms show ?thesis by (simp add: remove_item_def Let_def store_inv_remove_nth)
next
  case False
  with assms show ?thesis by (simp add: remove_item_def Let_def)
qed

lemma sint_quantity_range:
  assumes "0 \<le> q" "q \<le> 1000000"
  shows "sint (word_of_int q :: 32 word) = q"
proof -
  have "signed_take_bit (31::nat) q = q"
    using assms by (intro signed_take_bit_int_eq_self) simp_all
  then show ?thesis by (simp add: sint_sbintrunc')
qed

lemma load_record_cases:
  "load_record strtod lineno line items = (items', warn) \<Longrightarrow>
     (items' = items \<and> warn \<noteq> []) \<or>
     (\<exists>it. items' = items @ [it] \<and> warn = [] \<and>
        0 < length (name it) \<and> length (name it) < MAX_NAME_LEN \<and> find_item items (name it) < 0 \<and>
        0 \<le> sint (quantity it) \<and> sint (quantity it) \<le> 1000000 \<and>
        \<not> dless (price it) (Finite 0) \<and> \<not> dless (Finite 1000000000) (price it))"
  unfolding load_record_def Let_def
  by (auto simp: take_name_id sint_quantity_range split: prod.splits option.splits if_splits)

lemma load_record_inv:
  assumes "store_inv items" "length items < MAX_ITEMS"
  shows "store_inv (fst (load_record strtod lineno line items))"
proof -
  obtain items' warn where r: "load_record strtod lineno line items = (items', warn)"
    by (cases "load_record strtod lineno line items")
  from load_record_cases[OF r] assms have "store_inv items'"
    by (auto intro!: store_inv_snoc)
  with r show ?thesis by simp
qed

lemma load_loop_eof:
  "fgets LINE_BUF fp = None \<Longrightarrow> load_loop strtod fp lineno items out = (fp, lineno, items, out)"
  by (subst load_loop.simps) simp

lemma load_loop_skip:
  "fgets LINE_BUF fp = Some (buf, fp') \<Longrightarrow>
   trim (c_str buf) = [] \<or> hd (trim (c_str buf)) = CHR ''#'' \<Longrightarrow>
   load_loop strtod fp lineno items out = load_loop strtod fp' (lineno + 1) items out"
  by (subst load_loop.simps) (simp add: Let_def)

lemma load_loop_full:
  "fgets LINE_BUF fp = Some (buf, fp') \<Longrightarrow>
   \<not> (trim (c_str buf) = [] \<or> hd (trim (c_str buf)) = CHR ''#'') \<Longrightarrow>
   MAX_ITEMS \<le> length items \<Longrightarrow>
   load_loop strtod fp lineno items out = (fp', lineno + 1, items, out @ [Warn_MaxCapacity])"
  by (subst load_loop.simps) (simp add: Let_def)

lemma load_loop_record:
  "fgets LINE_BUF fp = Some (buf, fp') \<Longrightarrow>
   \<not> (trim (c_str buf) = [] \<or> hd (trim (c_str buf)) = CHR ''#'') \<Longrightarrow>
   \<not> MAX_ITEMS \<le> length items \<Longrightarrow>
   load_record strtod (lineno + 1) (trim (c_str buf)) items = (items', warn) \<Longrightarrow>
   load_loop strtod fp lineno items out = load_loop strtod fp' (lineno + 1) items' (out @ warn)"
  by (subst load_loop.simps) (simp add: Let_def)

lemma load_loop_cases [case_names eof skip full parse]:
  assumes eof: "\<And>fp lineno items out. fgets LINE_BUF fp = None \<Longrightarrow> P fp lineno items out"
    and skip: "\<And>fp lineno items out buf fp'.
        fgets LINE_BUF fp = Some (buf, fp') \<Longrightarrow>
        trim (c_str buf) = [] \<or> hd (trim (c_str buf)) = CHR ''#'' \<Longrightarrow>
        P fp' (lineno + 1) items out \<Longrightarrow> P fp lineno items out"
    and full: "\<And>fp lineno items out buf fp'.
        fgets LINE_BUF fp = Some (buf, fp') \<Longrightarrow>
        \<not> (trim (c_str buf) = [] \<or> hd (trim (c_str buf)) = CHR ''#'') \<Longrightarrow>
        MAX_ITEMS \<le> length items \<Longrightarrow> P fp lineno items out"
    and parse: "\<And>fp lineno items out buf fp' items' warn.
        fgets LINE_BUF fp = Some (buf, fp') \<Longrightarrow>
        \<not> (trim (c_str buf) = [] \<or> hd (trim (c_str buf)) = CHR ''#'') \<Longrightarrow>
        \<not> MAX_ITEMS \<le> length items \<Longrightarrow>
        load_record strtod (lineno + 1) (trim (c_str buf)) items = (items', warn) \<Longrightarrow>
        P fp' (lineno + 1) items' (out @ warn) \<Longrightarrow> P fp lineno items out"
  shows "P fp lineno items out"
proof -
  have "sd = strtod \<Longrightarrow> P fp lineno items out" for sd
  proof (induction sd fp lineno items out rule: load_loop.induct)
    case (1 sd fp lineno items out)
    show ?case
    proof (cases "fgets LINE_BUF fp")
      case None
      then show ?thesis by (rule eof)
    next
      case (Some a)
      obtain buf fp' where a: "a = (buf, fp')" by (cases a)
      let ?line = "trim (c_str buf)"
      have f: "fgets LINE_BUF fp = Some (buf, fp')" using Some a by simp
      show ?thesis
      proof (cases "?line = [] \<or> hd ?line = CHR ''#''")
        case True
        from f True "1.IH"(1)[OF Some a[symmetric] refl True "1.prems"] show ?thesis by (rule skip)
      next
        case nb: False
        show ?thesis
        proof (cases "MAX_ITEMS \<le> length items")
          case True
          with f nb show ?thesis by (rule full)
        next
          case False
          obtain items' warn where r: "load_record strtod (lineno + 1) ?line items = (items', warn)"
            by (cases "load_record strtod (lineno + 1) ?line items")
          have r': "(items', warn) = load_record sd (lineno + 1) ?line items"
            using r "1.prems" by simp
          from f nb False r "1.IH"(2)[OF Some a[symmetric] refl nb False r' "1.prems"]
          show ?thesis by (rule parse)
        qed
      qed
    qed
  qed
  then show ?thesis by simp
qed

lemma load_loop_inv:
  "store_inv items \<Longrightarrow> store_inv (fst (snd (snd (load_loop strtod fp lineno items out))))"
proof (induction fp lineno items out rule: load_loop_cases[where strtod = strtod])
  case (eof fp lineno items out)
  then show ?case by (simp add: load_loop_eof)
next
  case (skip fp lineno items out buf fp')
  then show ?case by (simp add: load_loop_skip)
next
  case (full fp lineno items out buf fp')
  then show ?case by (simp add: load_loop_full)
next
  case (parse fp lineno items out buf fp' items' warn)
  have "store_inv items'"
    using load_record_inv[of items strtod "lineno + 1" "trim (c_str buf)"] parse.prems parse.hyps
    by simp
  then have "store_inv (fst (snd (snd (load_loop strtod fp' (lineno + 1) items' (out @ warn)))))"
    by (rule parse.IH)
  then show ?case using parse.hyps by (simp add: load_loop_record)
qed

lemma store_inv_Nil: "store_inv []"
  by (simp add: store_inv_def unique_names_def valid_names_def)

lemma load_inventory_inv:
  assumes "store_inv items"
  shows "store_inv (fst (snd (load_inventory strtod fopen_r items)))"
proof (cases fopen_r)
  case (Inl e)
  with assms show ?thesis by (simp add: load_inventory_def)
next
  case (Inr fp)
  have "store_inv (fst (snd (snd (load_loop strtod fp 0 [] []))))"
    using store_inv_Nil by (rule load_loop_inv)
  with Inr show ?thesis
    by (cases "load_loop strtod fp 0 [] []") (simp add: load_inventory_def)
qed

lemma apply_operation_inv:
  "store_inv items \<Longrightarrow> store_inv (apply_operation strtod items op)"
  by (cases op) (simp_all add: add_item_inv remove_item_inv update_quantity_inv load_inventory_inv)

lemma foldl_inv:
  "store_inv items \<Longrightarrow> store_inv (foldl (apply_operation strtod) items ops)"
  by (induction ops arbitrary: items) (simp_all add: apply_operation_inv)

lemma run_inv: "store_inv (run strtod ops)"
  unfolding run_def using store_inv_Nil by (rule foldl_inv)

lemma distinct_map_filter_le1:
  "distinct (map f xs) \<Longrightarrow> length (filter (\<lambda>x. f x = y) xs) \<le> 1"
proof (induction xs)
  case Nil
  then show ?case by simp
next
  case (Cons x xs)
  show ?case
  proof (cases "f x = y")
    case True
    have "f x \<notin> f ` set xs" using Cons.prems by simp
    with True have "\<forall>z \<in> set xs. f z \<noteq> y" by blast
    then have "filter (\<lambda>x. f x = y) xs = []" by (simp add: filter_empty_conv)
    with True show ?thesis by simp
  next
    case False
    with Cons show ?thesis by simp
  qed
qed

text \<open>
  Claim C2. Whatever sequence of \<open>Add\<close>, \<open>Remove\<close>, \<open>SetQuantity\<close> and \<open>Load\<close> (of any
  file contents, or of a file that does not open) is run from the empty store, and
  whatever the name, the store holds at most one item whose name equals it without
  case. The sequence is arbitrary, so this holds after every step.
\<close>

theorem names_unique_always:
  "length (filter (\<lambda>it. strcasecmp (name it) nm = 0) (run strtod ops)) \<le> 1"
proof -
  have "unique_names (run strtod ops)"
    using run_inv[of strtod ops] by (simp add: store_inv_def)
  then have "length (filter (\<lambda>it. map tolower (name it) = map tolower nm) (run strtod ops)) \<le> 1"
    unfolding unique_names_def by (rule distinct_map_filter_le1)
  then show ?thesis by (simp add: strcasecmp_0_iff)
qed

section \<open>Adding, restocking and setting a quantity\<close>

lemma strcasecmp_length:
  "strcasecmp a b = 0 \<Longrightarrow> length a = length b"
  by (metis strcasecmp_0_iff length_map)

lemma find_item_match:
  assumes "store_inv items" "i < length items" "strcasecmp (name (items ! i)) nm = 0"
  shows "find_item items nm = int i" "0 < length nm" "length nm < MAX_NAME_LEN"
proof -
  show "find_item items nm = int i"
    using assms by (simp add: store_inv_def find_item_unique)
  have "items ! i \<in> set items" using assms(2) by simp
  then have "0 < length (name (items ! i)) \<and> length (name (items ! i)) < MAX_NAME_LEN"
    using assms(1) by (simp add: store_inv_def valid_names_def list_all_iff)
  then show "0 < length nm" "length nm < MAX_NAME_LEN"
    using strcasecmp_length[OF assms(3)] by simp_all
qed

lemma add_item_restock_eq:
  assumes "store_inv items" "i < length items" "strcasecmp (name (items ! i)) nm = 0"
    "0 < sint q" "\<not> dless p (Finite 0)"
  shows "add_item items nm q p =
    (True, items[i := (items ! i)\<lparr>quantity := quantity (items ! i) + q, price := p\<rparr>],
     [Ok_Restocked (name (items ! i)) (quantity (items ! i) + q) p])"
  using find_item_match[OF assms(1,2,3)] assms(4,5)
  by (simp add: add_item_def Let_def)

lemma add_item_new_eq:
  assumes "\<forall>it \<in> set items. strcasecmp (name it) nm \<noteq> 0" "0 < length nm" "length nm < MAX_NAME_LEN"
    "0 < sint q" "\<not> dless p (Finite 0)" "length items < MAX_ITEMS"
  shows "add_item items nm q p =
    (True, items @ [\<lparr>name = nm, quantity = q, price = p\<rparr>], [Ok_Added nm q p])"
  using find_item_absent_set[OF assms(1)] assms(2-)
  by (simp add: add_item_def Let_def take_name_id)

lemma sint_add_no_overflow:
  fixes a q :: "32 word"
  assumes "0 < sint q" "sint a + sint q \<le> 2147483647"
  shows "sint (a + q) = sint a + sint q"
proof -
  have "- (2 ^ 31) \<le> sint a" using sint_ge[of a] by simp
  with assms have "- (2 ^ 31) \<le> sint a + sint q" "sint a + sint q < 2 ^ 31" by simp_all
  then have "signed_take_bit (31::nat) (sint a + sint q) = sint a + sint q"
    by (rule signed_take_bit_int_eq_self)
  then show ?thesis by (simp add: sint_word_ariths)
qed

text \<open>
  Claim C1, as amended. In a store that satisfies the invariants, a call of \<^verbatim>\<open>add_item\<close>
  with a positive quantity \<open>q\<close> and a price \<open>p\<close> that is not negative, whose name equals
  without case the name of the item at position \<open>i\<close>, returns true; that item's quantity
  becomes the old quantity plus \<open>q\<close> in \<^verbatim>\<open>int\<close> arithmetic (the exact sum whenever it does
  not exceed \<^verbatim>\<open>INT_MAX\<close>), its price becomes \<open>p\<close>, and nothing else changes. In particular,
  on a store with room left and no item named X, adding X with 5 at 1.0 and then X with
  3 at 2.0 leaves the store extended by one item X with quantity 8 and price 2.0.
\<close>

theorem add_item_restock:
  "(store_inv items \<and> i < length items \<and> strcasecmp (name (items ! i)) nm = 0 \<and>
    0 < sint q \<and> \<not> dless p (Finite 0) \<longrightarrow>
      add_item items nm q p =
        (True, items[i := (items ! i)\<lparr>quantity := quantity (items ! i) + q, price := p\<rparr>],
         [Ok_Restocked (name (items ! i)) (quantity (items ! i) + q) p]) \<and>
      (sint (quantity (items ! i)) + sint q \<le> 2147483647 \<longrightarrow>
         sint (quantity (items ! i) + q) = sint (quantity (items ! i)) + sint q)) \<and>
   (store_inv items \<and> length items < MAX_ITEMS \<and>
    (\<forall>it \<in> set items. strcasecmp (name it) ''X'' \<noteq> 0) \<longrightarrow>
      add_item items ''X'' 5 (Finite 1) =
        (True, items @ [\<lparr>name = ''X'', quantity = 5, price = Finite 1\<rparr>], [Ok_Added ''X'' 5 (Finite 1)]) \<and>
      add_item (items @ [\<lparr>name = ''X'', quantity = 5, price = Finite 1\<rparr>]) ''X'' 3 (Finite 2) =
        (True, items @ [\<lparr>name = ''X'', quantity = 8, price = Finite 2\<rparr>], [Ok_Restocked ''X'' 8 (Finite 2)]))"
proof (intro conjI impI)
  assume a: "store_inv items \<and> i < length items \<and> strcasecmp (name (items ! i)) nm = 0 \<and>
    0 < sint q \<and> \<not> dless p (Finite 0)"
  then show "add_item items nm q p =
        (True, items[i := (items ! i)\<lparr>quantity := quantity (items ! i) + q, price := p\<rparr>],
         [Ok_Restocked (name (items ! i)) (quantity (items ! i) + q) p])"
    by (intro add_item_restock_eq) simp_all
  assume "sint (quantity (items ! i)) + sint q \<le> 2147483647"
  with a show "sint (quantity (items ! i) + q) = sint (quantity (items ! i)) + sint q"
    by (intro sint_add_no_overflow) simp_all
next
  assume b: "store_inv items \<and> length items < MAX_ITEMS \<and>
    (\<forall>it \<in> set items. strcasecmp (name it) ''X'' \<noteq> 0)"
  let ?x = "\<lparr>name = ''X'', quantity = 5, price = Finite 1\<rparr>"
  from b show first: "add_item items ''X'' 5 (Finite 1) = (True, items @ [?x], [Ok_Added ''X'' 5 (Finite 1)])"
    by (intro add_item_new_eq) (simp_all add: MAX_NAME_LEN_def)
  have "find_item items (name ?x) < 0"
    using find_item_absent_set[of items "''X''"] b by simp
  with b have inv: "store_inv (items @ [?x])"
    by (intro store_inv_snoc) (simp_all add: MAX_NAME_LEN_def)
  have "add_item (items @ [?x]) ''X'' 3 (Finite 2) =
    (True, (items @ [?x])[length items := ((items @ [?x]) ! length items)
        \<lparr>quantity := quantity ((items @ [?x]) ! length items) + 3, price := Finite 2\<rparr>],
     [Ok_Restocked (name ((items @ [?x]) ! length items)) (quantity ((items @ [?x]) ! length items) + 3) (Finite 2)])"
    using inv by (intro add_item_restock_eq) (simp_all add: strcasecmp_0_iff)
  then show "add_item (items @ [?x]) ''X'' 3 (Finite 2) =
        (True, items @ [\<lparr>name = ''X'', quantity = 8, price = Finite 2\<rparr>], [Ok_Restocked ''X'' 8 (Finite 2)])"
    by simp
qed

lemma store_inv_widget: "store_inv [\<lparr>name = ''Widget'', quantity = 10, price = Finite 3\<rparr>]"
  by (simp add: store_inv_def unique_names_def valid_names_def MAX_NAME_LEN_def MAX_ITEMS_def)

theorem add_item_restock_witness:
  "add_item [\<lparr>name = ''Widget'', quantity = 10, price = Finite 3\<rparr>] ''WIDGET'' 4 (Finite 9) =
     (True, [\<lparr>name = ''Widget'', quantity = 14, price = Finite 9\<rparr>], [Ok_Restocked ''Widget'' 14 (Finite 9)]) \<and>
   sint (10 + 4 :: 32 word) = 14 \<and>
   add_item [] ''X'' 5 (Finite 1) =
     (True, [\<lparr>name = ''X'', quantity = 5, price = Finite 1\<rparr>], [Ok_Added ''X'' 5 (Finite 1)]) \<and>
   add_item [\<lparr>name = ''X'', quantity = 5, price = Finite 1\<rparr>] ''X'' 3 (Finite 2) =
     (True, [\<lparr>name = ''X'', quantity = 8, price = Finite 2\<rparr>], [Ok_Restocked ''X'' 8 (Finite 2)])"
proof -
  have m: "strcasecmp ''Widget'' ''WIDGET'' = 0" by (simp add: tolower_def)
  show ?thesis
    using add_item_restock[of "[\<lparr>name = ''Widget'', quantity = 10, price = Finite 3\<rparr>]" 0 "''WIDGET''" 4 "Finite 9"]
      add_item_restock[of "[]" 0 "''X''" 4 "Finite 9"] m store_inv_widget store_inv_Nil
    by (simp add: MAX_ITEMS_def)
qed

text \<open>
  The claim as stated promises success for every call: with quantity 0 the call is
  refused although the item exists.
\<close>

theorem add_item_nonpositive_counterexample:
  "add_item [\<lparr>name = ''X'', quantity = 5, price = Finite 1\<rparr>] ''X'' 0 (Finite 1) =
     (False, [\<lparr>name = ''X'', quantity = 5, price = Finite 1\<rparr>], [Error_QuantityNotPositive])"
  by (simp add: add_item_def MAX_NAME_LEN_def)

text \<open>
  Claim C8, as amended. For every store and every name of 1 to 63 bytes, \<^verbatim>\<open>add_item\<close>
  with quantity 0 returns false with the message that the quantity must be positive and
  leaves the store unchanged. In a store with unique names, \<^verbatim>\<open>update_quantity\<close> with
  quantity 0 and a name that matches the item at position \<open>i\<close> returns true and sets that
  item's quantity to 0; the item stays in the store, at its place.
\<close>

theorem zero_quantity_boundary:
  "(0 < length nm \<and> length nm < MAX_NAME_LEN \<longrightarrow>
      add_item items nm 0 p = (False, items, [Error_QuantityNotPositive])) \<and>
   (unique_names items \<and> i < length items \<and> strcasecmp (name (items ! i)) nm = 0 \<longrightarrow>
      update_quantity items nm 0 =
        (True, items[i := (items ! i)\<lparr>quantity := 0\<rparr>], [Ok_Quantity nm 0]))"
proof (intro conjI impI)
  assume "0 < length nm \<and> length nm < MAX_NAME_LEN"
  then show "add_item items nm 0 p = (False, items, [Error_QuantityNotPositive])"
    by (simp add: add_item_def)
next
  assume a: "unique_names items \<and> i < length items \<and> strcasecmp (name (items ! i)) nm = 0"
  then have "find_item items nm = int i" by (simp add: find_item_unique)
  then show "update_quantity items nm 0 =
        (True, items[i := (items ! i)\<lparr>quantity := 0\<rparr>], [Ok_Quantity nm 0])"
    by (simp add: update_quantity_def)
qed

theorem zero_quantity_boundary_witness:
  "add_item [\<lparr>name = ''Bolt'', quantity = 7, price = Finite 2\<rparr>] ''Bolt'' 0 (Finite 2) =
     (False, [\<lparr>name = ''Bolt'', quantity = 7, price = Finite 2\<rparr>], [Error_QuantityNotPositive]) \<and>
   update_quantity [\<lparr>name = ''Bolt'', quantity = 7, price = Finite 2\<rparr>] ''bolt'' 0 =
     (True, [\<lparr>name = ''Bolt'', quantity = 0, price = Finite 2\<rparr>], [Ok_Quantity ''bolt'' 0])"
proof -
  have m: "strcasecmp ''Bolt'' ''bolt'' = 0" by (simp add: tolower_def)
  have u: "unique_names [\<lparr>name = ''Bolt'', quantity = 7, price = Finite 2\<rparr>]"
    by (simp add: unique_names_def)
  show ?thesis
    using zero_quantity_boundary[of "''Bolt''" "[\<lparr>name = ''Bolt'', quantity = 7, price = Finite 2\<rparr>]" "Finite 2" 0]
      zero_quantity_boundary[of "''bolt''" "[\<lparr>name = ''Bolt'', quantity = 7, price = Finite 2\<rparr>]" "Finite 2" 0] m u
    by (simp add: MAX_NAME_LEN_def)
qed

text \<open>
  The claim as stated covers every name: with the empty name the call fails on the name
  test, which comes first, and reports an invalid name.
\<close>

theorem add_item_empty_name_counterexample:
  "add_item [] [] 0 (Finite 1) = (False, [], [Error_InvalidName])"
  by (simp add: add_item_def)

text \<open>
  Claim C3 fails on the code. \<^verbatim>\<open>add_item\<close> adds to the stored quantity without an upper
  bound, so two calls that each pass the menu's range test leave 1000001 units in the
  store, beyond the 1000000 that \<^verbatim>\<open>load_inventory\<close> and \<^verbatim>\<open>parse_int\<close> accept: saved and
  loaded again, the item is refused for its quantity.
\<close>

theorem restock_exceeds_quantity_bound:
  "run strtod_dec [Add ''X'' 1000000 (Finite 1), Add ''X'' 1 (Finite 1)] =
     [\<lparr>name = ''X'', quantity = 1000001, price = Finite 1\<rparr>] \<and>
   sint (1000001 :: 32 word) = 1000001 \<and>
   save_inventory printf_2f_dec True [\<lparr>name = ''X'', quantity = 1000001, price = Finite 1\<rparr>] =
     (True, Some (file_header @ ''X,1000001,1.00'' @ [CHR 0x0A]), [Info_Saved 1]) \<and>
   load_inventory strtod_dec (Inr (file_header @ ''X,1000001,1.00'' @ [CHR 0x0A])) [] =
     (True, [], [Warn_Quantity 2 ''1000001'', Info_Loaded 0])"
proof -
  have "run strtod_dec [Add ''X'' 1000000 (Finite 1), Add ''X'' 1 (Finite 1)] =
      [\<lparr>name = ''X'', quantity = 1000001, price = Finite 1\<rparr>]"
    by (simp add: run_def add_item_def MAX_NAME_LEN_def MAX_ITEMS_def find_item_def
        find_item_from.simps)
  moreover have "sint (1000001 :: 32 word) = 1000001" by simp
  moreover have "save_inventory printf_2f_dec True
      [\<lparr>name = ''X'', quantity = 1000001, price = Finite 1\<rparr>] =
      (True, Some (file_header @ ''X,1000001,1.00'' @ [CHR 0x0A]), [Info_Saved 1])"
    by (simp add: save_inventory_def save_line_def printf_d_def digits10.simps printf_2f_dec_def)
  moreover have "load_inventory strtod_dec (Inr (file_header @ ''X,1000001,1.00'' @ [CHR 0x0A])) [] =
      (True, [], [Warn_Quantity 2 ''1000001'', Info_Loaded 0])"
    by code_simp
  ultimately show ?thesis by (simp only: simp_thms)
qed

section \<open>Loading\<close>

text \<open>
  On the empty store, where the program calls it (once, first thing in \<^verbatim>\<open>main\<close>),
  \<^verbatim>\<open>load_inventory\<close> on a file that does not exist returns true, prints the informational
  note and leaves the inventory empty. The return value and the note are the same on
  every store.
\<close>

lemma load_missing_file_at_startup:
  "load_inventory strtod (Inl ENOENT) [] = (True, [], [Info_NotFound]) \<and>
   fst (load_inventory strtod (Inl ENOENT) items) = True \<and>
   snd (snd (load_inventory strtod (Inl ENOENT) items)) = [Info_NotFound]"
  by (simp add: load_inventory_def)

text \<open>
  Claim C9 fails on the code. The claim covers every store, and so do the function's own
  comment (a missing file is treated as an empty inventory) and its message (starting
  with empty inventory). But the function returns on \<^verbatim>\<open>ENOENT\<close> before it reaches
  \<^verbatim>\<open>g_count = 0\<close>: a store that holds an item still holds it after a load from a missing
  file, while a load from a file that exists and is empty clears it.
\<close>

theorem load_missing_file_keeps_store:
  "run strtod_dec [Add ''X'' 5 (Finite 1), Load (Inl ENOENT)] =
     [\<lparr>name = ''X'', quantity = 5, price = Finite 1\<rparr>] \<and>
   load_inventory strtod_dec (Inl ENOENT) [\<lparr>name = ''X'', quantity = 5, price = Finite 1\<rparr>] =
     (True, [\<lparr>name = ''X'', quantity = 5, price = Finite 1\<rparr>], [Info_NotFound]) \<and>
   load_inventory strtod_dec (Inr []) [\<lparr>name = ''X'', quantity = 5, price = Finite 1\<rparr>] =
     (True, [], [Info_Loaded 0])"
proof -
  have "run strtod_dec [Add ''X'' 5 (Finite 1), Load (Inl ENOENT)] =
      [\<lparr>name = ''X'', quantity = 5, price = Finite 1\<rparr>]"
    by (simp add: run_def add_item_def load_inventory_def MAX_NAME_LEN_def MAX_ITEMS_def
        find_item_def find_item_from.simps)
  moreover have "load_inventory strtod_dec (Inl ENOENT)
      [\<lparr>name = ''X'', quantity = 5, price = Finite 1\<rparr>] =
      (True, [\<lparr>name = ''X'', quantity = 5, price = Finite 1\<rparr>], [Info_NotFound])"
    by (simp add: load_inventory_def)
  moreover have "load_inventory strtod_dec (Inr [])
      [\<lparr>name = ''X'', quantity = 5, price = Finite 1\<rparr>] = (True, [], [Info_Loaded 0])"
    by (simp add: load_inventory_def load_loop.simps fgets_def)
  ultimately show ?thesis by (simp only: simp_thms)
qed

section \<open>Reading back what was written\<close>

lemma fgets_chars_line:
  "CHR 0x0A \<notin> set l \<Longrightarrow> length l < n \<Longrightarrow>
     fgets_chars n (l @ CHR 0x0A # rest) = (l @ [CHR 0x0A], rest)"
proof (induction l arbitrary: n)
  case Nil
  then obtain m where "n = Suc m" by (cases n) auto
  then show ?case by simp
next
  case (Cons c l)
  then obtain m where n: "n = Suc m" by (cases n) auto
  with Cons.prems have "fgets_chars m (l @ CHR 0x0A # rest) = (l @ [CHR 0x0A], rest)"
    by (intro Cons.IH) auto
  with n Cons.prems show ?case by auto
qed

lemma fgets_line:
  assumes "CHR 0x0A \<notin> set l" "length l + 1 < LINE_BUF"
  shows "fgets LINE_BUF (l @ CHR 0x0A # rest) = Some (l @ [CHR 0x0A], rest)"
proof -
  have "fgets_chars (LINE_BUF - 1) (l @ CHR 0x0A # rest) = (l @ [CHR 0x0A], rest)"
    using assms by (intro fgets_chars_line) simp_all
  then show ?thesis by (simp add: fgets_def)
qed

lemma c_str_line:
  "CHR 0x00 \<notin> set l \<Longrightarrow> c_str (l @ [CHR 0x0A]) = l @ [CHR 0x0A]"
  by (auto simp: c_str_def takeWhile_eq_all_conv)

lemma isspace_newline: "isspace (CHR 0x0A)"
  by (simp add: isspace_def)

lemma trim_clean:
  assumes "l \<noteq> []" "\<not> isspace (hd l)" "\<not> isspace (last l)"
  shows "trim l = l"
proof -
  from assms(1,2) have a: "dropWhile isspace l = l" by (cases l) simp_all
  from assms(1,3) have "dropWhile isspace (rev l) = rev l"
    by (cases "rev l") (simp_all add: last_rev[symmetric] hd_rev)
  with a show ?thesis by (simp add: trim_def)
qed

lemma trim_line:
  assumes "l \<noteq> []" "\<not> isspace (hd l)" "\<not> isspace (last l)"
  shows "trim (l @ [CHR 0x0A]) = l"
proof -
  from assms(1,2) have a: "dropWhile isspace (l @ [CHR 0x0A]) = l @ [CHR 0x0A]"
    by (cases l) simp_all
  from assms(1,3) have "dropWhile isspace (rev l) = rev l"
    by (cases "rev l") (simp_all add: hd_rev)
  with a show ?thesis by (simp add: trim_def isspace_newline)
qed

lemma strtok_last:
  assumes "tok \<noteq> []" "CHR '','' \<notin> set tok"
  shows "strtok tok = (Some tok, [])"
proof -
  have nc: "\<forall>x \<in> set tok. x \<noteq> CHR '',''" using assms(2) by auto
  have d1: "dropWhile (\<lambda>c. c = CHR '','') tok = tok" using assms nc by (cases tok) auto
  have t1: "takeWhile (\<lambda>c. c \<noteq> CHR '','') tok = tok" using nc by (simp add: takeWhile_eq_all_conv)
  have d2: "dropWhile (\<lambda>c. c \<noteq> CHR '','') tok = []" using nc by (simp add: dropWhile_eq_Nil_conv)
  show ?thesis by (simp add: strtok_def Let_def d1 t1 d2 assms(1))
qed

lemma strtok_token:
  assumes "tok \<noteq> []" "CHR '','' \<notin> set tok"
  shows "strtok (tok @ CHR '','' # rest) = (Some tok, rest)"
proof -
  have nc: "\<forall>x \<in> set tok. x \<noteq> CHR '',''" using assms(2) by auto
  have d1: "dropWhile (\<lambda>c. c = CHR '','') (tok @ CHR '','' # rest) = tok @ CHR '','' # rest"
    using assms nc by (cases tok) auto
  have t1: "takeWhile (\<lambda>c. c \<noteq> CHR '','') (tok @ CHR '','' # rest) = tok"
    using nc by (simp add: takeWhile_append2)
  have d2: "dropWhile (\<lambda>c. c \<noteq> CHR '','') (tok @ CHR '','' # rest) = CHR '','' # rest"
    using nc by (simp add: dropWhile_append2)
  show ?thesis by (simp add: strtok_def Let_def d1 t1 d2 assms(1))
qed

lemma digit_less_10_cases:
  "d < 10 \<Longrightarrow> d = 0 \<or> d = 1 \<or> d = 2 \<or> d = 3 \<or> d = 4 \<or> d = 5 \<or> d = 6 \<or> d = 7 \<or> d = 8 \<or> d = (9::nat)"
  by arith

lemma digit_char_isdigit: "d < 10 \<Longrightarrow> isdigit (''0123456789'' ! d)"
  using digit_less_10_cases[of d] by (auto simp: isdigit_def)

lemma digit_char_val: "d < 10 \<Longrightarrow> digit_val (''0123456789'' ! d) = int d"
  using digit_less_10_cases[of d] by (auto simp: digit_val_def)

lemma digits10_nonempty: "digits10 n \<noteq> []"
  by (subst digits10.simps) simp

lemma digits10_isdigit: "list_all isdigit (digits10 n)"
proof (induction n rule: digits10.induct)
  case (1 n)
  show ?case
  proof (cases "n < 10")
    case True
    then show ?thesis by (subst digits10.simps) (simp add: digit_char_isdigit)
  next
    case False
    have "n mod 10 < 10" by simp
    then have "isdigit (''0123456789'' ! (n mod 10))" by (rule digit_char_isdigit)
    with False "1.IH" show ?thesis by (subst digits10.simps) simp
  qed
qed

lemma digits10_value:
  "foldl (\<lambda>a c. 10 * a + digit_val c) 0 (digits10 n) = int n"
proof (induction n rule: digits10.induct)
  case (1 n)
  show ?case
  proof (cases "n < 10")
    case True
    then show ?thesis by (subst digits10.simps) (simp add: digit_char_val)
  next
    case False
    have "n mod 10 < 10" by simp
    then have "digit_val (''0123456789'' ! (n mod 10)) = int (n mod 10)" by (rule digit_char_val)
    with False "1.IH" show ?thesis by (subst digits10.simps) (simp add: zdiv_int zmod_int)
  qed
qed

lemma isdigit_cases:
  "isdigit c \<Longrightarrow> c = CHR ''0'' \<or> c = CHR ''1'' \<or> c = CHR ''2'' \<or> c = CHR ''3'' \<or> c = CHR ''4'' \<or>
     c = CHR ''5'' \<or> c = CHR ''6'' \<or> c = CHR ''7'' \<or> c = CHR ''8'' \<or> c = CHR ''9''"
  by (simp add: isdigit_def)

lemma isdigit_not_special:
  assumes "isdigit c"
  shows "\<not> isspace c" "c \<noteq> CHR '',''" "c \<noteq> CHR 0x00" "c \<noteq> CHR 0x0A" "c \<noteq> CHR ''-''" "c \<noteq> CHR ''+''"
    "c \<noteq> CHR ''#''"
  using isdigit_cases[OF assms] by (auto simp: isspace_def)

lemma isdigit_tolower:
  assumes "isdigit c"
  shows "tolower c = c"
  using isdigit_cases[OF assms] by (elim disjE) (simp_all add: tolower_def)

lemma strtol_digits10:
  "strtol (digits10 n) = (min LONG_MAX (int n), [])"
proof -
  let ?ds = "digits10 n"
  have ne: "?ds \<noteq> []" by (rule digits10_nonempty)
  have all: "list_all isdigit ?ds" by (rule digits10_isdigit)
  then have hd: "isdigit (hd ?ds)" using ne by (cases ?ds) simp_all
  have sp: "dropWhile isspace ?ds = ?ds"
    using ne hd isdigit_not_special(1) by (cases ?ds) simp_all
  have sign: "hd ?ds \<noteq> CHR ''-''" "hd ?ds \<noteq> CHR ''+''"
    using hd isdigit_not_special by blast+
  have tw: "takeWhile isdigit ?ds = ?ds"
    using all by (simp add: takeWhile_eq_all_conv list_all_iff)
  have dw: "dropWhile isdigit ?ds = []"
    using all by (simp add: dropWhile_eq_Nil_conv list_all_iff)
  show ?thesis
    by (simp add: strtol_def Let_def sp tw dw digits10_value ne sign)
qed

lemma word_of_int_sint_quantity: "word_of_int (sint (q :: 32 word)) = q"
  by simp

lemma printf_d_nonneg: "0 \<le> i \<Longrightarrow> printf_d i = digits10 (nat i)"
  by (simp add: printf_d_def)

lemma digits10_plain: "list_all (\<lambda>c. plain_char c \<and> \<not> isspace c) (digits10 n)"
proof -
  have "\<forall>c \<in> set (digits10 n). isdigit c"
    using digits10_isdigit[of n] by (simp add: list_all_iff)
  then show ?thesis
    using isdigit_not_special by (auto simp: list_all_iff plain_char_def)
qed

lemma plain_token:
  assumes "t \<noteq> []" "list_all (\<lambda>c. plain_char c \<and> \<not> isspace c) t"
  shows "CHR '','' \<notin> set t" "CHR 0x0A \<notin> set t" "CHR 0x00 \<notin> set t" "trim t = t"
proof -
  from assms(2) show "CHR '','' \<notin> set t" "CHR 0x0A \<notin> set t" "CHR 0x00 \<notin> set t"
    by (auto simp: list_all_iff plain_char_def)
  from assms have "\<not> isspace (hd t)" "\<not> isspace (last t)"
    by (auto simp: list_all_iff)
  with assms(1) show "trim t = t" by (intro trim_clean)
qed

lemma clean_name_token:
  assumes "clean_name nm"
  shows "nm \<noteq> []" "CHR '','' \<notin> set nm" "CHR 0x0A \<notin> set nm" "CHR 0x00 \<notin> set nm" "trim nm = nm"
    "length nm < MAX_NAME_LEN" "hd nm \<noteq> CHR ''#''" "\<not> isspace (hd nm)"
proof -
  from assms show "nm \<noteq> []" "length nm < MAX_NAME_LEN" "hd nm \<noteq> CHR ''#''" "\<not> isspace (hd nm)"
    by (simp_all add: clean_name_def)
  from assms show "CHR '','' \<notin> set nm" "CHR 0x0A \<notin> set nm" "CHR 0x00 \<notin> set nm"
    by (auto simp: clean_name_def list_all_iff plain_char_def)
  from assms show "trim nm = nm"
    by (intro trim_clean) (simp_all add: clean_name_def)
qed

lemma save_line_record_text: "save_line printf_2f it = record_text printf_2f it @ [CHR 0x0A]"
  by (simp add: save_line_def record_text_def)

lemma load_record_saved:
  assumes s: "saveable strtod printf_2f it" and f: "find_item items (name it) < 0"
  shows "load_record strtod lineno (record_text printf_2f it) items =
           (items @ [reread strtod printf_2f it], [])"
proof -
  let ?nm = "name it" and ?qd = "digits10 (nat (sint (quantity it)))" and ?pt = "printf_2f (price it)"
  let ?l = "record_text printf_2f it"
  have cn: "clean_name ?nm" and q0: "0 \<le> sint (quantity it)" and q1: "sint (quantity it) \<le> 1000000"
    and rb: "reads_back strtod printf_2f (price it)" and len: "length (save_line printf_2f it) < LINE_BUF"
    using s by (simp_all add: saveable_def)
  have l: "?l = ?nm @ CHR '','' # ?qd @ CHR '','' # ?pt"
    using q0 by (simp add: record_text_def printf_d_nonneg)
  have tk: "take (LINE_BUF - 1) ?l = ?l"
    using len by (simp add: save_line_record_text)
  have pt: "?pt \<noteq> []" "list_all (\<lambda>c. plain_char c \<and> \<not> isspace c) ?pt"
    "snd (strtod ?pt) = []" "\<not> dless (fst (strtod ?pt)) (Finite 0)"
    "\<not> dless (Finite 1000000000) (fst (strtod ?pt))"
    using rb by (simp_all add: reads_back_def Let_def)
  have t1: "strtok ?l = (Some ?nm, ?qd @ CHR '','' # ?pt)"
    unfolding l using clean_name_token(1,2)[OF cn] by (rule strtok_token)
  have t2: "strtok (?qd @ CHR '','' # ?pt) = (Some ?qd, ?pt)"
    using digits10_nonempty plain_token(1)[OF digits10_nonempty digits10_plain] by (rule strtok_token)
  have t3: "strtok ?pt = (Some ?pt, [])"
    using pt(1) plain_token(1)[OF pt(1,2)] by (rule strtok_last)
  have tr: "trim ?nm = ?nm" "trim ?qd = ?qd" "trim ?pt = ?pt"
    using clean_name_token(5)[OF cn] plain_token(4)[OF digits10_nonempty digits10_plain]
      plain_token(4)[OF pt(1,2)] by simp_all
  have sl: "strtol ?qd = (sint (quantity it), [])"
    using q0 q1 by (simp add: strtol_digits10 LONG_MAX_def)
  obtain pv ep where sd: "strtod ?pt = (pv, ep)" by (cases "strtod ?pt")
  with pt have pv: "ep = []" "\<not> dless pv (Finite 0)" "\<not> dless (Finite 1000000000) pv" by simp_all
  have nl: "length ?nm \<noteq> 0" "\<not> MAX_NAME_LEN \<le> length ?nm" "take (MAX_NAME_LEN - 1) ?nm = ?nm"
    using clean_name_token(1,6)[OF cn] by simp_all
  have rr: "reread strtod printf_2f it = \<lparr>name = ?nm, quantity = quantity it, price = pv\<rparr>"
    using sd by (simp add: reread_def)
  show ?thesis
    unfolding load_record_def tk
    using f q0 q1 clean_name_token(1)[OF cn]
    by (simp add: Let_def t1 t2 t3 tr sl sd pv nl rr del: One_nat_def)
qed

lemma record_text_line:
  assumes s: "saveable strtod printf_2f it"
  shows "\<forall>rest. fgets LINE_BUF (save_line printf_2f it @ rest) = Some (record_text printf_2f it @ [CHR 0x0A], rest)"
    and "trim (c_str (record_text printf_2f it @ [CHR 0x0A])) = record_text printf_2f it"
    and "record_text printf_2f it \<noteq> []"
    and "hd (record_text printf_2f it) \<noteq> CHR ''#''"
proof -
  let ?nm = "name it" and ?qd = "digits10 (nat (sint (quantity it)))" and ?pt = "printf_2f (price it)"
  let ?l = "record_text printf_2f it"
  have cn: "clean_name ?nm" and q0: "0 \<le> sint (quantity it)"
    and rb: "reads_back strtod printf_2f (price it)" and len: "length (save_line printf_2f it) < LINE_BUF"
    using s by (simp_all add: saveable_def)
  have l: "?l = ?nm @ CHR '','' # ?qd @ CHR '','' # ?pt"
    using q0 by (simp add: record_text_def printf_d_nonneg)
  have pt: "?pt \<noteq> []" "list_all (\<lambda>c. plain_char c \<and> \<not> isspace c) ?pt"
    using rb by (simp_all add: reads_back_def Let_def)
  have nonl: "CHR 0x0A \<notin> set ?l"
    unfolding l using clean_name_token(3)[OF cn] plain_token(2)[OF digits10_nonempty digits10_plain]
      plain_token(2)[OF pt] by simp
  have nonul: "CHR 0x00 \<notin> set ?l"
    unfolding l using clean_name_token(4)[OF cn] plain_token(3)[OF digits10_nonempty digits10_plain]
      plain_token(3)[OF pt] by simp
  show ne: "?l \<noteq> []" unfolding l using clean_name_token(1)[OF cn] by simp
  have hd: "hd ?l = hd ?nm" unfolding l using clean_name_token(1)[OF cn] by simp
  have last: "last ?l = last ?pt" unfolding l using pt(1) by simp
  show "hd ?l \<noteq> CHR ''#''" using hd clean_name_token(7)[OF cn] by simp
  have "length ?l + 1 < LINE_BUF" using len by (simp add: save_line_record_text)
  with nonl have "fgets LINE_BUF (?l @ CHR 0x0A # rest) = Some (?l @ [CHR 0x0A], rest)" for rest
    by (rule fgets_line)
  then show "\<forall>rest. fgets LINE_BUF (save_line printf_2f it @ rest) = Some (?l @ [CHR 0x0A], rest)"
    by (simp add: save_line_record_text)
  have "\<not> isspace (hd ?l)" using hd clean_name_token(8)[OF cn] by simp
  moreover have "\<not> isspace (last ?l)" using last pt by (auto simp: list_all_iff)
  ultimately have "trim (?l @ [CHR 0x0A]) = ?l" using ne by (intro trim_line)
  then show "trim (c_str (?l @ [CHR 0x0A])) = ?l" by (simp add: c_str_line[OF nonul])
qed

lemma name_reread [simp]: "name (reread strtod printf_2f it) = name it"
  by (simp add: reread_def)

lemma quantity_reread [simp]: "quantity (reread strtod printf_2f it) = quantity it"
  by (simp add: reread_def)

lemma unique_names_Cons_absent:
  assumes "unique_names (items @ x # xs)"
  shows "find_item items (name x) < 0" "unique_names ((items @ [reread strtod printf_2f x]) @ xs)"
proof -
  from assms have d: "distinct (map (\<lambda>it. map tolower (name it)) items @
      map tolower (name x) # map (\<lambda>it. map tolower (name it)) xs)"
    by (simp add: unique_names_def)
  then have "map tolower (name x) \<notin> (\<lambda>it. map tolower (name it)) ` set items" by simp
  then have "\<forall>it \<in> set items. map tolower (name it) \<noteq> map tolower (name x)"
  proof (intro ballI notI)
    fix it assume n: "map tolower (name x) \<notin> (\<lambda>it. map tolower (name it)) ` set items"
      and i: "it \<in> set items" and e: "map tolower (name it) = map tolower (name x)"
    from i have "map tolower (name it) \<in> (\<lambda>it. map tolower (name it)) ` set items" by (rule imageI)
    with n e show False by simp
  qed
  then have "\<forall>it \<in> set items. strcasecmp (name it) (name x) \<noteq> 0"
    by (simp add: strcasecmp_0_iff)
  then show "find_item items (name x) < 0" by (simp add: find_item_absent_set)
  from d show "unique_names ((items @ [reread strtod printf_2f x]) @ xs)"
    by (simp add: unique_names_def)
qed

lemma load_loop_saved_lines:
  assumes "list_all (saveable strtod printf_2f) xs" "unique_names (items @ xs)"
    "length items + length xs \<le> MAX_ITEMS"
  shows "load_loop strtod (concat (map (save_line printf_2f) xs) @ rest) lineno items out =
         load_loop strtod rest (lineno + length xs) (items @ map (reread strtod printf_2f) xs) out"
  using assms
proof (induction xs arbitrary: items lineno)
  case Nil
  then show ?case by simp
next
  case (Cons x xs)
  from Cons.prems(1) have sx: "saveable strtod printf_2f x" and sxs: "list_all (saveable strtod printf_2f) xs"
    by simp_all
  let ?rest = "concat (map (save_line printf_2f) xs) @ rest"
  note rt = record_text_line[OF sx]
  have room: "\<not> MAX_ITEMS \<le> length items" using Cons.prems(3) by simp
  have rec: "load_record strtod (lineno + 1) (trim (c_str (record_text printf_2f x @ [CHR 0x0A]))) items =
      (items @ [reread strtod printf_2f x], [])"
    unfolding rt(2) using sx unique_names_Cons_absent(1)[OF Cons.prems(2)] by (rule load_record_saved)
  have "load_loop strtod (save_line printf_2f x @ ?rest) lineno items out =
      load_loop strtod ?rest (lineno + 1) (items @ [reread strtod printf_2f x]) (out @ [])"
    using rt(1)[rule_format, of ?rest] _ room rec
  proof (rule load_loop_record)
    show "\<not> (trim (c_str (record_text printf_2f x @ [CHR 0x0A])) = [] \<or>
      hd (trim (c_str (record_text printf_2f x @ [CHR 0x0A]))) = CHR ''#'')"
      unfolding rt(2) using rt(3,4) by simp
  qed
  also have "\<dots> = load_loop strtod rest (lineno + 1 + length xs)
      ((items @ [reread strtod printf_2f x]) @ map (reread strtod printf_2f) xs) out"
    using sxs unique_names_Cons_absent(2)[OF Cons.prems(2)] Cons.prems(3)
    by (simp only: append_Nil2) (rule Cons.IH, simp_all)
  finally show ?case by simp
qed

lemma valid_records_from_eof:
  "fgets LINE_BUF fp = None \<Longrightarrow> valid_records_from strtod fp lineno items = items"
  by (subst valid_records_from.simps) simp

lemma valid_records_from_skip:
  "fgets LINE_BUF fp = Some (buf, fp') \<Longrightarrow>
   trim (c_str buf) = [] \<or> hd (trim (c_str buf)) = CHR ''#'' \<Longrightarrow>
   valid_records_from strtod fp lineno items = valid_records_from strtod fp' (lineno + 1) items"
  by (subst valid_records_from.simps) (simp add: Let_def)

lemma valid_records_from_record:
  "fgets LINE_BUF fp = Some (buf, fp') \<Longrightarrow>
   \<not> (trim (c_str buf) = [] \<or> hd (trim (c_str buf)) = CHR ''#'') \<Longrightarrow>
   load_record strtod (lineno + 1) (trim (c_str buf)) items = (items', warn) \<Longrightarrow>
   valid_records_from strtod fp lineno items = valid_records_from strtod fp' (lineno + 1) items'"
  by (subst valid_records_from.simps) (simp add: Let_def)

lemma valid_records_saved_lines:
  assumes "list_all (saveable strtod printf_2f) xs" "unique_names (items @ xs)"
  shows "valid_records_from strtod (concat (map (save_line printf_2f) xs) @ rest) lineno items =
         valid_records_from strtod rest (lineno + length xs) (items @ map (reread strtod printf_2f) xs)"
  using assms
proof (induction xs arbitrary: items lineno)
  case Nil
  then show ?case by simp
next
  case (Cons x xs)
  from Cons.prems(1) have sx: "saveable strtod printf_2f x" and sxs: "list_all (saveable strtod printf_2f) xs"
    by simp_all
  let ?rest = "concat (map (save_line printf_2f) xs) @ rest"
  note rt = record_text_line[OF sx]
  have rec: "load_record strtod (lineno + 1) (trim (c_str (record_text printf_2f x @ [CHR 0x0A]))) items =
      (items @ [reread strtod printf_2f x], [])"
    unfolding rt(2) using sx unique_names_Cons_absent(1)[OF Cons.prems(2)] by (rule load_record_saved)
  have "valid_records_from strtod (save_line printf_2f x @ ?rest) lineno items =
      valid_records_from strtod ?rest (lineno + 1) (items @ [reread strtod printf_2f x])"
    using rt(1)[rule_format, of ?rest] _ rec
  proof (rule valid_records_from_record)
    show "\<not> (trim (c_str (record_text printf_2f x @ [CHR 0x0A])) = [] \<or>
      hd (trim (c_str (record_text printf_2f x @ [CHR 0x0A]))) = CHR ''#'')"
      unfolding rt(2) using rt(3,4) by simp
  qed
  also have "\<dots> = valid_records_from strtod rest (lineno + 1 + length xs)
      ((items @ [reread strtod printf_2f x]) @ map (reread strtod printf_2f) xs)"
    using sxs unique_names_Cons_absent(2)[OF Cons.prems(2)]
    by (rule Cons.IH)
  finally show ?case by simp
qed

lemma fgets_Nil: "fgets LINE_BUF [] = None"
  by (simp add: fgets_def)

lemma load_loop_header:
  "load_loop strtod (file_header @ rest) lineno items out = load_loop strtod rest (lineno + 1) items out"
proof -
  define h where "h = ''# Retail Inventory '' @ [CHR 0xE2, CHR 0x80, CHR 0x93] @ '' format: name,quantity,price''"
  have fh: "file_header @ rest = h @ CHR 0x0A # rest" by (simp add: file_header_def h_def)
  have f: "fgets LINE_BUF (h @ CHR 0x0A # rest) = Some (h @ [CHR 0x0A], rest)"
    by (rule fgets_line) (simp_all add: LINE_BUF_def h_def)
  have "c_str (h @ [CHR 0x0A]) = h @ [CHR 0x0A]" by (rule c_str_line) (simp add: h_def)
  moreover have "trim (h @ [CHR 0x0A]) = h" by (rule trim_line) (simp_all add: isspace_def h_def)
  ultimately have t: "trim (c_str (h @ [CHR 0x0A])) = h" by simp
  have "trim (c_str (h @ [CHR 0x0A])) = [] \<or> hd (trim (c_str (h @ [CHR 0x0A]))) = CHR ''#''"
    unfolding t by (simp add: h_def)
  with f show ?thesis unfolding fh by (rule load_loop_skip)
qed

text \<open>
  Claim C5, as amended. Take a store that satisfies the invariants and whose items are
  all \<open>saveable\<close>: names without comma, line break or NUL, without white space at either
  end and without a leading \<^verbatim>\<open>#\<close>, quantities between 0 and 1000000, prices whose
  two-decimal text \<open>strtod\<close> reads back in full as a price between 0 and 1e9, lines that
  fit the line buffer. If \<^verbatim>\<open>save_inventory\<close> opens the file, it returns true, and
  \<^verbatim>\<open>load_inventory\<close> on the bytes written returns true with the same names in the same
  order, the same quantities, and as prices the values \<open>strtod\<close> reads from the
  two-decimal texts; it prints no warning. This holds for every \<open>strtod\<close> and every
  \<^verbatim>\<open>%.2f\<close>; that the value read from the two-decimal text is the saved price rounded
  to two decimals depends on the C library's floating point, and is shown below for the
  reference instances, which compute exactly (\<open>strtod_dec_printf_2f_dec\<close>).
\<close>

theorem save_load_round_trip:
  assumes "list_all (saveable strtod printf_2f) items" and "store_inv items"
    and "save_inventory printf_2f True items = (ok, Some file, out)"
  shows "ok \<and>
    load_inventory strtod (Inr file) items0 =
      (True, map (reread strtod printf_2f) items, [Info_Loaded (length items)]) \<and>
    map name (map (reread strtod printf_2f) items) = map name items \<and>
    map quantity (map (reread strtod printf_2f) items) = map quantity items \<and>
    map price (map (reread strtod printf_2f) items) =
      map (\<lambda>it. fst (strtod (printf_2f (price it)))) items"
proof -
  from assms(3) have ok: ok and fl: "file = file_header @ concat (map (save_line printf_2f) items) @ []"
    by (simp_all add: save_inventory_def)
  have "load_loop strtod file 0 [] [] =
      load_loop strtod (concat (map (save_line printf_2f) items) @ []) (0 + 1) [] []"
    unfolding fl by (rule load_loop_header)
  also have "\<dots> = load_loop strtod [] (0 + 1 + length items) ([] @ map (reread strtod printf_2f) items) []"
    using assms(1,2) by (intro load_loop_saved_lines) (simp_all add: store_inv_def)
  also have "\<dots> = ([], 0 + 1 + length items, [] @ map (reread strtod printf_2f) items, [])"
    using fgets_Nil by (rule load_loop_eof)
  finally have "load_inventory strtod (Inr file) items0 =
      (True, map (reread strtod printf_2f) items, [Info_Loaded (length items)])"
    by (simp add: load_inventory_def)
  with ok show ?thesis by (simp add: reread_def comp_def)
qed

lemma round_trip_demo_saveable: "list_all (saveable strtod_dec printf_2f_dec)
     [\<lparr>name = ''Apple'', quantity = 100, price = Finite 2.5\<rparr>,
      \<lparr>name = ''Pear juice'', quantity = 0, price = Finite 1\<rparr>]"
  by code_simp

lemma round_trip_demo_inv: "store_inv
     [\<lparr>name = ''Apple'', quantity = 100, price = Finite 2.5\<rparr>,
      \<lparr>name = ''Pear juice'', quantity = 0, price = Finite 1\<rparr>]"
  by code_simp

lemma round_trip_demo_save: "save_inventory printf_2f_dec True
     [\<lparr>name = ''Apple'', quantity = 100, price = Finite 2.5\<rparr>,
      \<lparr>name = ''Pear juice'', quantity = 0, price = Finite 1\<rparr>] =
   (True, Some (file_header @ ''Apple,100,2.50'' @ [CHR 0x0A] @ ''Pear juice,0,1.00'' @ [CHR 0x0A]), [Info_Saved 2])"
  by code_simp

lemma round_trip_demo_reread: "map (reread strtod_dec printf_2f_dec) 
     [\<lparr>name = ''Apple'', quantity = 100, price = Finite 2.5\<rparr>,
      \<lparr>name = ''Pear juice'', quantity = 0, price = Finite 1\<rparr>] =  [\<lparr>name = ''Apple'', quantity = 100, price = Finite 2.5\<rparr>,
      \<lparr>name = ''Pear juice'', quantity = 0, price = Finite 1\<rparr>]"
  by code_simp

theorem save_load_round_trip_witness:
  "save_inventory printf_2f_dec True
     [\<lparr>name = ''Apple'', quantity = 100, price = Finite 2.5\<rparr>,
      \<lparr>name = ''Pear juice'', quantity = 0, price = Finite 1\<rparr>] =
   (True, Some (file_header @ ''Apple,100,2.50'' @ [CHR 0x0A] @ ''Pear juice,0,1.00'' @ [CHR 0x0A]), [Info_Saved 2]) \<and>
   load_inventory strtod_dec
     (Inr (file_header @ ''Apple,100,2.50'' @ [CHR 0x0A] @ ''Pear juice,0,1.00'' @ [CHR 0x0A])) [] =
   (True, [\<lparr>name = ''Apple'', quantity = 100, price = Finite 2.5\<rparr>,
           \<lparr>name = ''Pear juice'', quantity = 0, price = Finite 1\<rparr>], [Info_Loaded 2])"
  using save_load_round_trip[OF round_trip_demo_saveable round_trip_demo_inv round_trip_demo_save, of "[]"]
    round_trip_demo_save round_trip_demo_reread
  by simp

text \<open>
  The claim as stated covers every store. A name with a comma passes \<^verbatim>\<open>add_item\<close>, is
  written as it is, and splits into two fields when the file is read: the line is
  refused and the item is lost.
\<close>

theorem save_load_comma_counterexample:
  "run strtod_dec [Add ''a,b'' 5 (Finite 1)] = [\<lparr>name = ''a,b'', quantity = 5, price = Finite 1\<rparr>] \<and>
   save_inventory printf_2f_dec True [\<lparr>name = ''a,b'', quantity = 5, price = Finite 1\<rparr>] =
     (True, Some (file_header @ ''a,b,5,1.00'' @ [CHR 0x0A]), [Info_Saved 1]) \<and>
   load_inventory strtod_dec (Inr (file_header @ ''a,b,5,1.00'' @ [CHR 0x0A])) [] =
     (True, [], [Warn_Quantity 2 ''b'', Info_Loaded 0])"
  by code_simp

text \<open>
  The reference instances compute in exact decimal arithmetic. There every price between
  0 and 1e9 reads back, and the value read from the two-decimal text is the price rounded
  to two decimals, so the condition \<open>reads_back\<close> excludes no such price.
\<close>

lemma digit_char_nat_val: "d < 10 \<Longrightarrow> nat (digit_val (''0123456789'' ! d)) = d"
  by (simp add: digit_char_val)

lemma decimal_value_digits10: "decimal_value (digits10 n) = n"
proof -
  have "int (foldl (\<lambda>a c. 10 * a + nat (digit_val c)) k ds) =
      foldl (\<lambda>a c. 10 * a + digit_val c) (int k) ds" if "list_all isdigit ds" for ds k
    using that
  proof (induction ds arbitrary: k)
    case Nil
    then show ?case by simp
  next
    case (Cons c ds)
    from Cons.prems have "isdigit c" by simp
    then have "0 \<le> digit_val c" using isdigit_cases[of c] by (auto simp: digit_val_def)
    then have "int (10 * k + nat (digit_val c)) = 10 * int k + digit_val c" by simp
    with Cons show ?case by simp
  qed
  from this[OF digits10_isdigit, of 0 n] show ?thesis
    by (simp add: decimal_value_def digits10_value)
qed

lemma decimal_value_two: "a < 10 \<Longrightarrow> b < 10 \<Longrightarrow>
  decimal_value [''0123456789'' ! a, ''0123456789'' ! b] = 10 * a + b"
  by (simp add: decimal_value_def digit_char_nat_val)

lemma strtod_dec_printf_2f_dec:
  assumes "0 \<le> r"
  shows "strtod_dec (printf_2f_dec (Finite r)) = (Finite (real (nat \<lfloor>r * 100 + 1 / 2\<rfloor>) / 100), [])"
proof -
  define n where "n = nat \<lfloor>r * 100 + 1 / 2\<rfloor>"
  define ip where "ip = digits10 (n div 100)"
  define d1 where "d1 = ''0123456789'' ! (n div 10 mod 10)"
  define d2 where "d2 = ''0123456789'' ! (n mod 10)"
  have t: "printf_2f_dec (Finite r) = ip @ CHR ''.'' # [d1, d2]"
    using assms by (simp add: printf_2f_dec_def Let_def n_def ip_def d1_def d2_def)
  have ipd: "\<forall>c \<in> set ip. isdigit c" "ip \<noteq> []"
    using digits10_isdigit[of "n div 100"] digits10_nonempty[of "n div 100"]
    by (simp_all add: ip_def list_all_iff)
  have dd: "isdigit d1" "isdigit d2"
    by (simp_all add: d1_def d2_def digit_char_isdigit)
  have dot: "\<not> isdigit (CHR ''.'')" by (simp add: isdigit_def)
  have hdip: "isdigit (hd ip)" using ipd by (cases ip) simp_all
  have hd: "hd (ip @ CHR ''.'' # [d1, d2]) = hd ip" using ipd(2) by simp
  have sp: "dropWhile isspace (ip @ CHR ''.'' # [d1, d2]) = ip @ CHR ''.'' # [d1, d2]"
    using ipd(2) hdip isdigit_not_special(1) by (cases ip) simp_all
  have sg: "hd ip \<noteq> CHR ''-''" "hd ip \<noteq> CHR ''+''" using hdip isdigit_not_special by blast+
  have tw: "takeWhile isdigit (ip @ CHR ''.'' # [d1, d2]) = ip"
    using ipd(1) dot by (simp add: takeWhile_append2)
  have dw: "dropWhile isdigit (ip @ CHR ''.'' # [d1, d2]) = CHR ''.'' # [d1, d2]"
    using ipd(1) dot by (simp add: dropWhile_append2)
  have v1: "decimal_value ip = n div 100" by (simp add: ip_def decimal_value_digits10)
  have v2: "decimal_value [d1, d2] = 10 * (n div 10 mod 10) + n mod 10"
    unfolding d1_def d2_def by (rule decimal_value_two) simp_all
  have "n mod (10 * 10) = 10 * (n div 10 mod 10) + n mod 10"
    by (rule mod_mult2_eq)
  with v2 have v2': "decimal_value [d1, d2] = n mod 100" by simp
  have "real (n div 100) + real (n mod 100) / 10 ^ 2 = real n / 100"
  proof -
    have "real n = real (100 * (n div 100) + n mod 100)" by simp
    also have "\<dots> = 100 * real (n div 100) + real (n mod 100)" by (simp only: of_nat_add of_nat_mult of_nat_numeral)
    finally show ?thesis by simp
  qed
  then show ?thesis
    unfolding t n_def[symmetric]
    using ipd(2) sg dd
    by (simp add: strtod_dec_def Let_def sp hd tw dw v1 v2')
qed

lemma reads_back_dec:
  assumes "0 \<le> r" "r \<le> 1000000000"
  shows "reads_back strtod_dec printf_2f_dec (Finite r)"
proof -
  define n where "n = nat \<lfloor>r * 100 + 1 / 2\<rfloor>"
  have t: "printf_2f_dec (Finite r) = digits10 (n div 100) @ CHR ''.'' #
      [''0123456789'' ! (n div 10 mod 10), ''0123456789'' ! (n mod 10)]"
    using assms by (simp add: printf_2f_dec_def Let_def n_def)
  have pl: "list_all (\<lambda>c. plain_char c \<and> \<not> isspace c) (printf_2f_dec (Finite r))"
  proof -
    have "isdigit (''0123456789'' ! (n div 10 mod 10))" "isdigit (''0123456789'' ! (n mod 10))"
      by (simp_all add: digit_char_isdigit)
    then have "list_all (\<lambda>c. plain_char c \<and> \<not> isspace c)
        [''0123456789'' ! (n div 10 mod 10), ''0123456789'' ! (n mod 10)]"
      using isdigit_not_special by (simp add: plain_char_def)
    moreover have "plain_char (CHR ''.'') \<and> \<not> isspace (CHR ''.'')"
      by (simp add: plain_char_def isspace_def)
    ultimately show ?thesis unfolding t using digits10_plain[of "n div 100"] by simp
  qed
  have "r * 100 + 1 / 2 < 100000000000 + 1" using assms(2) by simp
  then have "\<lfloor>r * 100 + 1 / 2\<rfloor> \<le> 100000000000" by (subst floor_le_iff) simp
  then have "n \<le> 100000000000" unfolding n_def by (subst nat_le_iff) simp
  then have le: "real n / 100 \<le> 1000000000" by simp
  have ne: "printf_2f_dec (Finite r) \<noteq> []" unfolding t by simp
  have sd: "strtod_dec (printf_2f_dec (Finite r)) = (Finite (real n / 100), [])"
    unfolding n_def by (rule strtod_dec_printf_2f_dec[OF assms(1)])
  show ?thesis
    using pl ne le by (simp add: reads_back_def Let_def sd)
qed

section \<open>Fields of a line\<close>

lemma split_commas_nonempty: "split_commas s \<noteq> []"
  by (induction s) (auto split: list.splits)

lemma split_commas_Cons_plain:
  "c \<noteq> CHR '','' \<Longrightarrow> split_commas (c # cs) = (c # hd (split_commas cs)) # tl (split_commas cs)"
  using split_commas_nonempty[of cs] by (cases "split_commas cs") simp_all

lemma nonempty_fields_comma: "nonempty_fields (CHR '','' # s) = nonempty_fields s"
  by (simp add: nonempty_fields_def)

lemma nonempty_fields_dropWhile:
  "nonempty_fields (dropWhile (\<lambda>c. c = CHR '','') s) = nonempty_fields s"
  by (induction s) (simp_all add: nonempty_fields_comma)

lemma split_commas_token:
  "split_commas s =
     takeWhile (\<lambda>c. c \<noteq> CHR '','') s #
     (case dropWhile (\<lambda>c. c \<noteq> CHR '','') s of [] \<Rightarrow> [] | c # r \<Rightarrow> split_commas r)"
proof (induction s)
  case Nil
  then show ?case by simp
next
  case (Cons c cs)
  show ?case
  proof (cases "c = CHR '',''")
    case True
    then show ?thesis by simp
  next
    case False
    with Cons show ?thesis by (simp add: split_commas_Cons_plain)
  qed
qed

lemma nonempty_fields_Nil: "nonempty_fields [] = []"
  by (simp add: nonempty_fields_def)

lemma nonempty_fields_token:
  assumes "s \<noteq> []" "hd s \<noteq> CHR '',''"
  shows "nonempty_fields s =
     takeWhile (\<lambda>c. c \<noteq> CHR '','') s # nonempty_fields (drop 1 (dropWhile (\<lambda>c. c \<noteq> CHR '','') s))"
proof -
  let ?t = "takeWhile (\<lambda>c. c \<noteq> CHR '','') s" and ?d = "dropWhile (\<lambda>c. c \<noteq> CHR '','') s"
  from assms have ne: "?t \<noteq> []" by (cases s) auto
  have sc: "split_commas s = ?t # (case ?d of [] \<Rightarrow> [] | c # r \<Rightarrow> split_commas r)"
    by (rule split_commas_token)
  show ?thesis
  proof (cases ?d)
    case Nil
    have "split_commas s = [?t]" by (subst sc) (simp only: Nil list.case)
    then have "nonempty_fields s = [?t]" using ne by (simp add: nonempty_fields_def)
    moreover have "nonempty_fields (drop 1 ?d) = []" by (simp only: Nil drop_Nil nonempty_fields_Nil)
    ultimately show ?thesis by (simp only:)
  next
    case (Cons c r)
    have "split_commas s = ?t # split_commas r" by (subst sc) (simp only: Cons list.case)
    then have "nonempty_fields s = ?t # nonempty_fields r" using ne by (simp add: nonempty_fields_def)
    moreover have "drop 1 ?d = r" by (simp only: Cons) simp
    ultimately show ?thesis by (simp only:)
  qed
qed

lemma strtok_fields:
  "strtok s = (tok, rest) \<Longrightarrow>
     (tok = None \<and> nonempty_fields s = []) \<or>
     (\<exists>f. tok = Some f \<and> nonempty_fields s = f # nonempty_fields rest)"
proof -
  assume a: "strtok s = (tok, rest)"
  let ?s1 = "dropWhile (\<lambda>c. c = CHR '','') s"
  have nf: "nonempty_fields s = nonempty_fields ?s1" by (simp only: nonempty_fields_dropWhile)
  show ?thesis
  proof (cases "?s1 = []")
    case True
    have "nonempty_fields s = []" by (subst nf) (simp only: True nonempty_fields_Nil)
    moreover have "tok = None" using a by (simp only: strtok_def Let_def True) simp
    ultimately show ?thesis by simp
  next
    case False
    then have "hd ?s1 \<noteq> CHR '',''" using hd_dropWhile[of "\<lambda>c. c = CHR '',''" s] by blast
    with False have "nonempty_fields ?s1 =
      takeWhile (\<lambda>c. c \<noteq> CHR '','') ?s1 # nonempty_fields (drop 1 (dropWhile (\<lambda>c. c \<noteq> CHR '','') ?s1))"
      by (rule nonempty_fields_token)
    moreover have "tok = Some (takeWhile (\<lambda>c. c \<noteq> CHR '','') ?s1)"
      "rest = drop 1 (dropWhile (\<lambda>c. c \<noteq> CHR '','') ?s1)"
      using a False by (simp_all only: strtok_def Let_def if_False prod.inject)
    ultimately show ?thesis using nf by simp
  qed
qed

lemma strtok_three:
  assumes "strtok s = (t1, r1)" "strtok r1 = (t2, r2)" "strtok r2 = (t3, r3)"
  shows "(t1 \<noteq> None \<and> t2 \<noteq> None \<and> t3 \<noteq> None) = (3 \<le> length (nonempty_fields s))"
    and "t1 \<noteq> None \<Longrightarrow> t1 = Some (nonempty_fields s ! 0)"
  using strtok_fields[OF assms(1)] strtok_fields[OF assms(2)] strtok_fields[OF assms(3)]
  by auto

lemma load_record_fields:
  assumes "length line < LINE_BUF"
  shows "length (nonempty_fields line) < 3 \<Longrightarrow>
           load_record strtod lineno line items = (items, [Warn_Malformed lineno line])"
    and "load_record strtod lineno line items = (items', warn) \<Longrightarrow> items' \<noteq> items \<Longrightarrow>
           3 \<le> length (nonempty_fields line) \<and> warn = [] \<and>
           (\<exists>it. items' = items @ [it] \<and> name it = trim (nonempty_fields line ! 0))"
proof -
  have tk: "take (LINE_BUF - 1) line = line" using assms by simp
  obtain t1 r1 where s1: "strtok line = (t1, r1)" by (cases "strtok line")
  obtain t2 r2 where s2: "strtok r1 = (t2, r2)" by (cases "strtok r1")
  obtain t3 r3 where s3: "strtok r2 = (t3, r3)" by (cases "strtok r2")
  note th = strtok_three[OF s1 s2 s3]
  show "load_record strtod lineno line items = (items, [Warn_Malformed lineno line])"
    if "length (nonempty_fields line) < 3"
  proof -
    from that th(1) have "t1 = None \<or> t2 = None \<or> t3 = None" by auto
    then show ?thesis
      unfolding load_record_def tk by (auto simp: s1 s2 s3 Let_def split: option.splits)
  qed
  show "3 \<le> length (nonempty_fields line) \<and> warn = [] \<and>
         (\<exists>it. items' = items @ [it] \<and> name it = trim (nonempty_fields line ! 0))"
    if r: "load_record strtod lineno line items = (items', warn)" and d: "items' \<noteq> items"
  proof -
    from r d have some: "t1 \<noteq> None \<and> t2 \<noteq> None \<and> t3 \<noteq> None"
      unfolding load_record_def tk by (auto simp: s1 s2 s3 Let_def split: option.splits)
    with th have f3: "3 \<le> length (nonempty_fields line)" and t1: "t1 = Some (nonempty_fields line ! 0)"
      by simp_all
    from r d some t1 have "warn = [] \<and> (\<exists>it. items' = items @ [it] \<and> name it = trim (nonempty_fields line ! 0))"
      unfolding load_record_def tk
      by (auto simp: s1 s2 s3 Let_def take_name_id split: option.splits prod.splits if_splits)
    with f3 show ?thesis by simp
  qed
qed

lemma fgets_chars_buf_length: "fgets_chars n fp = (buf, fp') \<Longrightarrow> length buf \<le> n"
  by (induction n fp arbitrary: buf fp' rule: fgets_chars.induct)
     (auto split: if_splits prod.splits)

lemma trim_length: "length (trim s) \<le> length s"
proof -
  have "length (dropWhile isspace (rev (dropWhile isspace s))) \<le> length (rev (dropWhile isspace s))"
    by (rule length_dropWhile_le)
  also have "\<dots> \<le> length s" by (simp add: length_dropWhile_le)
  finally show ?thesis by (simp add: trim_def)
qed

lemma fgets_line_length:
  assumes "fgets LINE_BUF fp = Some (buf, fp')"
  shows "length (trim (c_str buf)) < LINE_BUF"
proof -
  from assms have "fgets_chars (LINE_BUF - 1) fp = (buf, fp')"
    by (simp add: fgets_def split: if_splits)
  then have "length buf \<le> LINE_BUF - 1" by (rule fgets_chars_buf_length)
  moreover have "length (c_str buf) \<le> length buf"
    unfolding c_str_def by (rule length_takeWhile_le)
  moreover have "length (trim (c_str buf)) \<le> length (c_str buf)" by (rule trim_length)
  ultimately show ?thesis by (simp add: LINE_BUF_def)
qed

text \<open>
  Claim C6, as amended. While the store has room, a line read by the loop that is neither
  blank nor a comment and has fewer than three non-empty comma-separated fields adds no
  item and prints the malformed-record warning with its line number and text, and the
  loop goes on with the rest of the stream. Conversely, a line that adds an item has at
  least three non-empty fields, prints no warning, and the item's name is the first of
  them, trimmed. \<^verbatim>\<open>strtok\<close> drops empty fields and the loop never looks behind the third
  token, so "exactly three" is "at least three" in the code.
\<close>

theorem load_skips_malformed_line:
  "(fgets LINE_BUF fp = Some (buf, fp') \<and> trim (c_str buf) \<noteq> [] \<and>
    hd (trim (c_str buf)) \<noteq> CHR ''#'' \<and> length items < MAX_ITEMS \<and>
    length (nonempty_fields (trim (c_str buf))) < 3 \<longrightarrow>
      load_loop strtod fp lineno items out =
        load_loop strtod fp' (lineno + 1) items
          (out @ [Warn_Malformed (lineno + 1) (trim (c_str buf))])) \<and>
   (fgets LINE_BUF fp = Some (buf, fp') \<and>
    load_record strtod (lineno + 1) (trim (c_str buf)) items = (items', warn) \<and> items' \<noteq> items \<longrightarrow>
      3 \<le> length (nonempty_fields (trim (c_str buf))) \<and> warn = [] \<and>
      (\<exists>it. items' = items @ [it] \<and> name it = trim (nonempty_fields (trim (c_str buf)) ! 0)))"
proof (rule conjI; rule impI)
  assume a: "fgets LINE_BUF fp = Some (buf, fp') \<and> trim (c_str buf) \<noteq> [] \<and>
    hd (trim (c_str buf)) \<noteq> CHR ''#'' \<and> length items < MAX_ITEMS \<and>
    length (nonempty_fields (trim (c_str buf))) < 3"
  then have f: "fgets LINE_BUF fp = Some (buf, fp')" by simp
  then have len: "length (trim (c_str buf)) < LINE_BUF" by (rule fgets_line_length)
  from a have "load_record strtod (lineno + 1) (trim (c_str buf)) items =
      (items, [Warn_Malformed (lineno + 1) (trim (c_str buf))])"
    by (intro load_record_fields(1)[OF len]) simp
  with a show "load_loop strtod fp lineno items out =
        load_loop strtod fp' (lineno + 1) items (out @ [Warn_Malformed (lineno + 1) (trim (c_str buf))])"
    by (intro load_loop_record) simp_all
next
  assume b: "fgets LINE_BUF fp = Some (buf, fp') \<and>
    load_record strtod (lineno + 1) (trim (c_str buf)) items = (items', warn) \<and> items' \<noteq> items"
  then have f: "fgets LINE_BUF fp = Some (buf, fp')" by simp
  then have len: "length (trim (c_str buf)) < LINE_BUF" by (rule fgets_line_length)
  from b have r: "load_record strtod (lineno + 1) (trim (c_str buf)) items = (items', warn)"
    and d: "items' \<noteq> items" by simp_all
  show "3 \<le> length (nonempty_fields (trim (c_str buf))) \<and> warn = [] \<and>
      (\<exists>it. items' = items @ [it] \<and> name it = trim (nonempty_fields (trim (c_str buf)) ! 0))"
    using len r d by (rule load_record_fields(2))
qed

lemma malformed_demo:
  "fgets LINE_BUF (''Pear,5'' @ [CHR 0x0A] @ ''Apple,100,0.99'' @ [CHR 0x0A]) =
     Some (''Pear,5'' @ [CHR 0x0A], ''Apple,100,0.99'' @ [CHR 0x0A])"
  "trim (c_str (''Pear,5'' @ [CHR 0x0A])) = ''Pear,5''"
  "length (nonempty_fields ''Pear,5'') = 2"
  "fgets LINE_BUF (''Apple,100,0.99'' @ [CHR 0x0A]) = Some (''Apple,100,0.99'' @ [CHR 0x0A], [])"
  "trim (c_str (''Apple,100,0.99'' @ [CHR 0x0A])) = ''Apple,100,0.99''"
  "load_record strtod_dec (Suc 0) ''Apple,100,0.99'' [] =
     ([\<lparr>name = ''Apple'', quantity = 100, price = Finite (99 / 100)\<rparr>], [])"
  "nonempty_fields ''Apple,100,0.99'' = [''Apple'', ''100'', ''0.99'']"
  by code_simp+

theorem load_skips_malformed_line_witness:
  "load_loop strtod_dec (''Pear,5'' @ [CHR 0x0A] @ ''Apple,100,0.99'' @ [CHR 0x0A]) 0 [] [] =
     load_loop strtod_dec (''Apple,100,0.99'' @ [CHR 0x0A]) 1 [] [Warn_Malformed 1 ''Pear,5''] \<and>
   3 \<le> length (nonempty_fields ''Apple,100,0.99'') \<and>
   load_inventory strtod_dec (Inr (''Pear,5'' @ [CHR 0x0A] @ ''Apple,100,0.99'' @ [CHR 0x0A])) [] =
     (True, [\<lparr>name = ''Apple'', quantity = 100, price = Finite (99 / 100)\<rparr>],
      [Warn_Malformed 1 ''Pear,5'', Info_Loaded 1])"
proof -
  have l: "load_inventory strtod_dec (Inr (''Pear,5'' @ [CHR 0x0A] @ ''Apple,100,0.99'' @ [CHR 0x0A])) [] =
     (True, [\<lparr>name = ''Apple'', quantity = 100, price = Finite (99 / 100)\<rparr>],
      [Warn_Malformed 1 ''Pear,5'', Info_Loaded 1])"
    by code_simp
  show ?thesis
    using load_skips_malformed_line[of "''Pear,5'' @ [CHR 0x0A] @ ''Apple,100,0.99'' @ [CHR 0x0A]"
        "''Pear,5'' @ [CHR 0x0A]" "''Apple,100,0.99'' @ [CHR 0x0A]" "[]" strtod_dec 0 "[]"]
      load_skips_malformed_line[of "''Apple,100,0.99'' @ [CHR 0x0A]"
        "''Apple,100,0.99'' @ [CHR 0x0A]" "[]" "[]" strtod_dec 0 "[]"
        "[\<lparr>name = ''Apple'', quantity = 100, price = Finite (99 / 100)\<rparr>]" "[]"]
      malformed_demo l
    by (simp add: MAX_ITEMS_def)
qed

text \<open>
  The claim as stated skips every line that does not split into exactly three fields:
  a line of four fields is loaded, without a warning.
\<close>

theorem load_four_fields_counterexample:
  "length (split_commas ''a,1,2.0,extra'') = 4 \<and>
   load_inventory strtod_dec (Inr (''a,1,2.0,extra'' @ [CHR 0x0A])) [] =
     (True, [\<lparr>name = ''a'', quantity = 1, price = Finite 2\<rparr>], [Info_Loaded 1])"
  by code_simp

section \<open>Capacity\<close>

lemma digits10_length:
  "n < 10 ^ k \<Longrightarrow> 0 < k \<Longrightarrow> length (digits10 n) \<le> k"
proof (induction k arbitrary: n)
  case 0
  then show ?case by simp
next
  case (Suc k)
  show ?case
  proof (cases "n < 10")
    case True
    then show ?thesis by (subst digits10.simps) simp
  next
    case False
    with Suc.prems have k: "0 < k" by (cases k) auto
    from Suc.prems have "n div 10 < 10 ^ k" by (simp add: less_mult_imp_div_less mult.commute)
    then have "length (digits10 (n div 10)) \<le> k" using k by (rule Suc.IH)
    with False show ?thesis by (subst digits10.simps) simp
  qed
qed

lemma digits10_inj: "digits10 a = digits10 b \<Longrightarrow> a = b"
proof -
  assume "digits10 a = digits10 b"
  then have "foldl (\<lambda>a c. 10 * a + digit_val c) 0 (digits10 a) =
    foldl (\<lambda>a c. 10 * a + digit_val c) 0 (digits10 b)" by simp
  then show ?thesis by (simp add: digits10_value)
qed

lemma digits10_tolower: "map tolower (digits10 n) = digits10 n"
proof -
  have "\<forall>c \<in> set (digits10 n). tolower c = c"
    using digits10_isdigit[of n] isdigit_tolower by (auto simp: list_all_iff)
  then show ?thesis by (simp add: map_idI)
qed

lemma unique_names_numbered: "unique_names (numbered_items n)"
proof -
  have "map (\<lambda>it. map tolower (name it)) (numbered_items n) = map digits10 [0..<n]"
    by (simp add: numbered_items_def digits10_tolower comp_def)
  moreover have "distinct (map digits10 [0..<n])"
    by (simp add: distinct_map inj_on_def) (blast dest: digits10_inj)
  ultimately show ?thesis by (simp add: unique_names_def)
qed

lemma digits10_hd_last:
  "isdigit (hd (digits10 n))" "isdigit (last (digits10 n))"
  using digits10_isdigit[of n] digits10_nonempty[of n]
  by (simp_all add: list_all_iff)

lemma clean_name_digits10:
  assumes "n < 1000"
  shows "clean_name (digits10 n)"
proof -
  have "length (digits10 n) \<le> 3" using assms by (intro digits10_length) simp_all
  moreover have "list_all plain_char (digits10 n)"
    using digits10_plain[of n] by (simp add: list_all_iff)
  ultimately show ?thesis
    using digits10_nonempty[of n] digits10_hd_last[of n] isdigit_not_special
    by (simp add: clean_name_def MAX_NAME_LEN_def)
qed

lemma reads_back_one: "reads_back strtod_dec printf_2f_dec (Finite 1)"
  by code_simp

lemma reread_one: "fst (strtod_dec (printf_2f_dec (Finite 1))) = Finite 1"
  by code_simp

lemma printf_one: "length (printf_d 1) = 1" "length (printf_2f_dec (Finite 1)) = 4"
  by code_simp+

lemma saveable_numbered:
  assumes "i < 1000"
  shows "saveable strtod_dec printf_2f_dec \<lparr>name = digits10 i, quantity = 1, price = Finite 1\<rparr>"
proof -
  have "length (digits10 i) \<le> 3" using assms by (intro digits10_length) simp_all
  then have "length (save_line printf_2f_dec \<lparr>name = digits10 i, quantity = 1, price = Finite 1\<rparr>) < LINE_BUF"
    by (simp add: save_line_def printf_one LINE_BUF_def)
  with clean_name_digits10[OF assms] reads_back_one show ?thesis
    by (simp add: saveable_def)
qed

lemma saveable_numbered_items:
  "n \<le> 1000 \<Longrightarrow> list_all (saveable strtod_dec printf_2f_dec) (numbered_items n)"
  by (simp add: numbered_items_def list_all_iff saveable_numbered)

lemma reread_numbered_items:
  "map (reread strtod_dec printf_2f_dec) (numbered_items n) = numbered_items n"
  by (simp add: numbered_items_def reread_def reread_one)

lemma numbered_items_Suc:
  "numbered_items (Suc n) = numbered_items n @ [\<lparr>name = digits10 n, quantity = 1, price = Finite 1\<rparr>]"
  by (simp add: numbered_items_def)

lemma length_numbered_items [simp]: "length (numbered_items n) = n"
  by (simp add: numbered_items_def)

lemma store_inv_numbered:
  assumes "n \<le> MAX_ITEMS"
  shows "store_inv (numbered_items n)"
proof -
  have "\<forall>i < n. 0 < length (digits10 i) \<and> length (digits10 i) < MAX_NAME_LEN"
  proof (intro allI impI)
    fix i assume "i < n"
    with assms have "i < 1000" by (simp add: MAX_ITEMS_def)
    from clean_name_digits10[OF this] show "0 < length (digits10 i) \<and> length (digits10 i) < MAX_NAME_LEN"
      by (simp add: clean_name_def)
  qed
  then have "valid_names (numbered_items n)"
    by (simp add: valid_names_def numbered_items_def list_all_iff)
  with assms unique_names_numbered show ?thesis by (simp add: store_inv_def)
qed

text \<open>
  Claim C10, as amended. In a store that holds \<open>MAX_ITEMS\<close> items and satisfies the
  invariants, \<^verbatim>\<open>add_item\<close> with a name that matches an item without case never fails for
  lack of room, and with a positive quantity and a price that is not negative it returns
  true and restocks that item: the capacity test is reached only when no item matches.
\<close>

theorem restock_at_capacity:
  "length items = MAX_ITEMS \<and> store_inv items \<and> i < length items \<and>
   strcasecmp (name (items ! i)) nm = 0 \<longrightarrow>
     snd (snd (add_item items nm q p)) \<noteq> [Error_InventoryFull] \<and>
     (0 < sint q \<and> \<not> dless p (Finite 0) \<longrightarrow>
        add_item items nm q p =
          (True, items[i := (items ! i)\<lparr>quantity := quantity (items ! i) + q, price := p\<rparr>],
           [Ok_Restocked (name (items ! i)) (quantity (items ! i) + q) p]))"
proof (rule impI)
  assume a: "length items = MAX_ITEMS \<and> store_inv items \<and> i < length items \<and>
    strcasecmp (name (items ! i)) nm = 0"
  then have m: "find_item items nm = int i" by (intro find_item_match(1)) simp_all
  have "snd (snd (add_item items nm q p)) \<noteq> [Error_InventoryFull]"
    by (simp add: add_item_def Let_def m)
  moreover have "add_item items nm q p =
          (True, items[i := (items ! i)\<lparr>quantity := quantity (items ! i) + q, price := p\<rparr>],
           [Ok_Restocked (name (items ! i)) (quantity (items ! i) + q) p])"
    if "0 < sint q \<and> \<not> dless p (Finite 0)"
    using a that by (intro add_item_restock_eq) simp_all
  ultimately show "snd (snd (add_item items nm q p)) \<noteq> [Error_InventoryFull] \<and>
     (0 < sint q \<and> \<not> dless p (Finite 0) \<longrightarrow>
        add_item items nm q p =
          (True, items[i := (items ! i)\<lparr>quantity := quantity (items ! i) + q, price := p\<rparr>],
           [Ok_Restocked (name (items ! i)) (quantity (items ! i) + q) p]))"
    by blast
qed

lemma numbered_items_first:
  "0 < n \<Longrightarrow> numbered_items n ! 0 = \<lparr>name = ''0'', quantity = 1, price = Finite 1\<rparr>"
  by (simp add: numbered_items_def digits10.simps)

theorem restock_at_capacity_witness:
  "length (numbered_items 500) = MAX_ITEMS \<and>
   add_item (numbered_items 500) ''0'' 4 (Finite 9) =
     (True, (numbered_items 500)[0 := \<lparr>name = ''0'', quantity = 5, price = Finite 9\<rparr>],
      [Ok_Restocked ''0'' 5 (Finite 9)])"
proof -
  have inv: "store_inv (numbered_items 500)"
    by (rule store_inv_numbered) (simp add: MAX_ITEMS_def)
  have first: "numbered_items 500 ! 0 = \<lparr>name = ''0'', quantity = 1, price = Finite 1\<rparr>"
    by (rule numbered_items_first) simp
  show ?thesis
    using restock_at_capacity[of "numbered_items 500" 0 "''0''" 4 "Finite 9"] inv first
    by (simp add: MAX_ITEMS_def)
qed

text \<open>
  The claim as stated promises success for every such call: on the full store, with a
  matching name and quantity 0, the call is refused by the quantity test, which comes
  before the lookup.
\<close>

theorem restock_at_capacity_counterexample:
  "length (numbered_items 500) = MAX_ITEMS \<and>
   strcasecmp (name (numbered_items 500 ! 0)) ''0'' = 0 \<and>
   add_item (numbered_items 500) ''0'' 0 (Finite 9) =
     (False, numbered_items 500, [Error_QuantityNotPositive])"
proof -
  have "numbered_items 500 ! 0 = \<lparr>name = ''0'', quantity = 1, price = Finite 1\<rparr>"
    by (rule numbered_items_first) simp
  then show ?thesis by (simp add: add_item_def MAX_NAME_LEN_def MAX_ITEMS_def)
qed

lemma valid_records_from_prefix:
  "\<exists>ys. valid_records_from strtod fp lineno items = items @ ys"
proof (induction "length fp" arbitrary: fp lineno items rule: less_induct)
  case less
  show ?case
  proof (cases "fgets LINE_BUF fp")
    case None
    then show ?thesis by (simp add: valid_records_from_eof)
  next
    case (Some a)
    obtain buf fp' where f: "fgets LINE_BUF fp = Some (buf, fp')" using Some by (cases a) simp
    then have sh: "length fp' < length fp" by (rule fgets_shorter)
    show ?thesis
    proof (cases "trim (c_str buf) = [] \<or> hd (trim (c_str buf)) = CHR ''#''")
      case True
      with f less[OF sh, of "lineno + 1" items] show ?thesis
        by (simp add: valid_records_from_skip)
    next
      case False
      obtain items' warn where r: "load_record strtod (lineno + 1) (trim (c_str buf)) items = (items', warn)"
        by (cases "load_record strtod (lineno + 1) (trim (c_str buf)) items")
      from load_record_cases[OF r] obtain zs where zs: "items' = items @ zs" by auto
      from less[OF sh, of "lineno + 1" items'] obtain ys
        where "valid_records_from strtod fp' (lineno + 1) items' = items' @ ys" by blast
      with f False r zs show ?thesis
        by (simp add: valid_records_from_record)
    qed
  qed
qed

lemma load_record_length:
  "load_record strtod lineno line items = (items', warn) \<Longrightarrow> length items' \<le> Suc (length items)"
  using load_record_cases[of strtod lineno line items items' warn] by auto

lemma load_record_warn:
  "load_record strtod lineno line items = (items', warn) \<Longrightarrow> Warn_MaxCapacity \<notin> set warn"
  unfolding load_record_def Let_def
  by (auto split: prod.splits option.splits if_splits)

lemma load_loop_take_valid:
  "length items \<le> MAX_ITEMS \<Longrightarrow>
     fst (snd (snd (load_loop strtod fp lineno items out))) =
       take MAX_ITEMS (valid_records_from strtod fp lineno items)"
proof (induction fp lineno items out rule: load_loop_cases[where strtod = strtod])
  case (eof fp lineno items out)
  then show ?case by (simp add: load_loop_eof valid_records_from_eof)
next
  case (skip fp lineno items out buf fp')
  then show ?case by (simp add: load_loop_skip valid_records_from_skip)
next
  case (full fp lineno items out buf fp')
  obtain ys where "valid_records_from strtod fp lineno items = items @ ys"
    using valid_records_from_prefix by blast
  with full show ?case by (simp add: load_loop_full)
next
  case (parse fp lineno items out buf fp' items' warn)
  have "length items' \<le> MAX_ITEMS"
    using load_record_length[OF parse.hyps(4)] parse.hyps(3) by simp
  then have "fst (snd (snd (load_loop strtod fp' (lineno + 1) items' (out @ warn)))) =
    take MAX_ITEMS (valid_records_from strtod fp' (lineno + 1) items')"
    by (rule parse.IH)
  with parse.hyps show ?case
    by (simp add: load_loop_record valid_records_from_record)
qed

lemma load_loop_one_warning:
  "length items \<le> MAX_ITEMS \<Longrightarrow> MAX_ITEMS < length (valid_records_from strtod fp lineno items) \<Longrightarrow>
     \<exists>ws. snd (snd (snd (load_loop strtod fp lineno items out))) = out @ ws @ [Warn_MaxCapacity] \<and>
       Warn_MaxCapacity \<notin> set ws"
proof (induction fp lineno items out rule: load_loop_cases[where strtod = strtod])
  case (eof fp lineno items out)
  then show ?case by (simp add: valid_records_from_eof)
next
  case (skip fp lineno items out buf fp')
  then show ?case by (simp add: load_loop_skip valid_records_from_skip)
next
  case (full fp lineno items out buf fp')
  then show ?case by (simp add: load_loop_full)
next
  case (parse fp lineno items out buf fp' items' warn)
  have "length items' \<le> MAX_ITEMS"
    using load_record_length[OF parse.hyps(4)] parse.hyps(3) by simp
  moreover have "MAX_ITEMS < length (valid_records_from strtod fp' (lineno + 1) items')"
    using parse.prems(2) parse.hyps by (simp add: valid_records_from_record)
  ultimately obtain ws where ws:
    "snd (snd (snd (load_loop strtod fp' (lineno + 1) items' (out @ warn)))) =
       (out @ warn) @ ws @ [Warn_MaxCapacity]" "Warn_MaxCapacity \<notin> set ws"
    using parse.IH by blast
  have "Warn_MaxCapacity \<notin> set (warn @ ws)"
    using ws(2) load_record_warn[OF parse.hyps(4)] by simp
  moreover have "snd (snd (snd (load_loop strtod fp lineno items out))) =
      out @ (warn @ ws) @ [Warn_MaxCapacity]"
    using ws(1) parse.hyps by (simp add: load_loop_record)
  ultimately show ?case by blast
qed

text \<open>
  Claim C7, as amended. If a file holds more than \<open>MAX_ITEMS\<close> valid records,
  \<^verbatim>\<open>load_inventory\<close> returns true, the store holds exactly the first \<open>MAX_ITEMS\<close> of them,
  and the capacity warning is printed once, as the last message of the loop. The loop
  stops there: when the store is full, the next line that is neither blank nor a comment
  ends the loop with the store unchanged, and the stream is returned as that line left
  it, the lines behind it unread.
\<close>

theorem load_stops_at_capacity:
  "(MAX_ITEMS < length (valid_records strtod fp) \<longrightarrow>
      (\<exists>ws. load_inventory strtod (Inr fp) items0 =
         (True, take MAX_ITEMS (valid_records strtod fp),
          ws @ [Warn_MaxCapacity, Info_Loaded MAX_ITEMS]) \<and>
        Warn_MaxCapacity \<notin> set ws)) \<and>
   (fgets LINE_BUF fp = Some (buf, fp') \<and> trim (c_str buf) \<noteq> [] \<and>
    hd (trim (c_str buf)) \<noteq> CHR ''#'' \<and> MAX_ITEMS \<le> length items \<longrightarrow>
      load_loop strtod fp lineno items out = (fp', lineno + 1, items, out @ [Warn_MaxCapacity]))"
proof (rule conjI; rule impI)
  assume a: "MAX_ITEMS < length (valid_records strtod fp)"
  obtain fp1 n1 items1 out1 where l: "load_loop strtod fp 0 [] [] = (fp1, n1, items1, out1)"
    by (cases "load_loop strtod fp 0 [] []")
  have "items1 = take MAX_ITEMS (valid_records strtod fp)"
    using load_loop_take_valid[of "[]" strtod fp 0 "[]"] l by (simp add: valid_records_def)
  moreover from this a have "length items1 = MAX_ITEMS" by simp
  moreover obtain ws where "out1 = ws @ [Warn_MaxCapacity]" "Warn_MaxCapacity \<notin> set ws"
    using load_loop_one_warning[of "[]" strtod fp 0 "[]"] a l by (auto simp: valid_records_def)
  ultimately show "\<exists>ws. load_inventory strtod (Inr fp) items0 =
         (True, take MAX_ITEMS (valid_records strtod fp),
          ws @ [Warn_MaxCapacity, Info_Loaded MAX_ITEMS]) \<and> Warn_MaxCapacity \<notin> set ws"
    using l by (simp add: load_inventory_def)
next
  assume b: "fgets LINE_BUF fp = Some (buf, fp') \<and> trim (c_str buf) \<noteq> [] \<and>
    hd (trim (c_str buf)) \<noteq> CHR ''#'' \<and> MAX_ITEMS \<le> length items"
  then have "fgets LINE_BUF fp = Some (buf, fp')"
    and "\<not> (trim (c_str buf) = [] \<or> hd (trim (c_str buf)) = CHR ''#'')"
    and "MAX_ITEMS \<le> length items"
    by blast+
  then show "load_loop strtod fp lineno items out = (fp', lineno + 1, items, out @ [Warn_MaxCapacity])"
    by (rule load_loop_full)
qed

lemma numbered_file_502:
  "numbered_file 502 = numbered_file 500 @
     save_line printf_2f_dec \<lparr>name = digits10 500, quantity = 1, price = Finite 1\<rparr> @
     save_line printf_2f_dec \<lparr>name = digits10 501, quantity = 1, price = Finite 1\<rparr>"
proof -
  have "numbered_items 502 = numbered_items (Suc (Suc 500))" by simp
  also have "\<dots> = numbered_items 500 @ [\<lparr>name = digits10 500, quantity = 1, price = Finite 1\<rparr>,
      \<lparr>name = digits10 501, quantity = 1, price = Finite 1\<rparr>]"
    by (simp only: numbered_items_Suc) simp
  finally show ?thesis by (simp add: numbered_file_def)
qed

lemma last_lines:
  "save_line printf_2f_dec \<lparr>name = digits10 500, quantity = 1, price = Finite 1\<rparr> = ''500,1,1.00'' @ [CHR 0x0A]"
  "save_line printf_2f_dec \<lparr>name = digits10 501, quantity = 1, price = Finite 1\<rparr> = ''501,1,1.00'' @ [CHR 0x0A]"
  by code_simp+

lemma valid_records_numbered_file:
  assumes "n \<le> 1000"
  shows "valid_records strtod_dec (numbered_file n) = numbered_items n"
proof -
  have "valid_records_from strtod_dec (numbered_file n @ []) 0 [] =
      valid_records_from strtod_dec [] (0 + length (numbered_items n))
        ([] @ map (reread strtod_dec printf_2f_dec) (numbered_items n))"
    unfolding numbered_file_def using saveable_numbered_items[OF assms] unique_names_numbered[of n]
    by (intro valid_records_saved_lines) simp_all
  also have "\<dots> = numbered_items n"
    by (simp add: valid_records_from_eof fgets_Nil reread_numbered_items)
  finally show ?thesis by (simp add: valid_records_def)
qed

lemma load_loop_numbered_file_502:
  "load_loop strtod_dec (numbered_file 502) 0 [] [] =
     (''501,1,1.00'' @ [CHR 0x0A], 501, numbered_items 500, [Warn_MaxCapacity])"
proof -
  let ?rest = "(''500,1,1.00'' @ [CHR 0x0A]) @ (''501,1,1.00'' @ [CHR 0x0A])"
  have "load_loop strtod_dec (numbered_file 500 @ ?rest) 0 [] [] =
      load_loop strtod_dec ?rest (0 + length (numbered_items 500))
        ([] @ map (reread strtod_dec printf_2f_dec) (numbered_items 500)) []"
    unfolding numbered_file_def using saveable_numbered_items[of 500] unique_names_numbered[of 500]
    by (intro load_loop_saved_lines) (simp_all add: MAX_ITEMS_def)
  also have "\<dots> = load_loop strtod_dec ?rest 500 (numbered_items 500) []"
    by (simp add: reread_numbered_items)
  also have "\<dots> = (''501,1,1.00'' @ [CHR 0x0A], 500 + 1, numbered_items 500, [] @ [Warn_MaxCapacity])"
  proof (rule load_loop_full)
    show "fgets LINE_BUF ?rest = Some (''500,1,1.00'' @ [CHR 0x0A], ''501,1,1.00'' @ [CHR 0x0A])"
      by code_simp
    show "\<not> (trim (c_str (''500,1,1.00'' @ [CHR 0x0A])) = [] \<or>
        hd (trim (c_str (''500,1,1.00'' @ [CHR 0x0A]))) = CHR ''#'')"
      by code_simp
    show "MAX_ITEMS \<le> length (numbered_items 500)" by (simp add: MAX_ITEMS_def)
  qed
  finally show ?thesis by (simp add: numbered_file_502 last_lines)
qed

theorem load_stops_at_capacity_witness:
  "MAX_ITEMS < length (valid_records strtod_dec (numbered_file 502)) \<and>
   (\<exists>ws. load_inventory strtod_dec (Inr (numbered_file 502)) [] =
         (True, take MAX_ITEMS (valid_records strtod_dec (numbered_file 502)),
          ws @ [Warn_MaxCapacity, Info_Loaded MAX_ITEMS]) \<and>
        Warn_MaxCapacity \<notin> set ws) \<and>
   load_loop strtod_dec (''500,1,1.00'' @ [CHR 0x0A] @ ''501,1,1.00'' @ [CHR 0x0A]) 500 (numbered_items 500) [] =
     (''501,1,1.00'' @ [CHR 0x0A], 501, numbered_items 500, [Warn_MaxCapacity])"
proof -
  have v: "MAX_ITEMS < length (valid_records strtod_dec (numbered_file 502))"
    by (simp add: valid_records_numbered_file MAX_ITEMS_def)
  have f: "fgets LINE_BUF (''500,1,1.00'' @ [CHR 0x0A] @ ''501,1,1.00'' @ [CHR 0x0A]) =
      Some (''500,1,1.00'' @ [CHR 0x0A], ''501,1,1.00'' @ [CHR 0x0A])"
    "trim (c_str (''500,1,1.00'' @ [CHR 0x0A])) = ''500,1,1.00''"
    by code_simp+
  show ?thesis
    using load_stops_at_capacity[of strtod_dec "numbered_file 502" "[]"
        "''500,1,1.00'' @ [CHR 0x0A]" "''501,1,1.00'' @ [CHR 0x0A]" "numbered_items 500" 500 "[]"]
      load_stops_at_capacity[of strtod_dec "''500,1,1.00'' @ [CHR 0x0A] @ ''501,1,1.00'' @ [CHR 0x0A]" "[]"
        "''500,1,1.00'' @ [CHR 0x0A]" "''501,1,1.00'' @ [CHR 0x0A]" "numbered_items 500" 500 "[]"]
      v f
    by (simp add: MAX_ITEMS_def)
qed

text \<open>
  The claim as stated has the loop consume the rest of the input. On a file of 502 valid
  records the loop ends at record 500 and the line of record 501 is never read.
\<close>

theorem load_leaves_lines_unread_counterexample:
  "MAX_ITEMS < length (valid_records strtod_dec (numbered_file 502)) \<and>
   load_loop strtod_dec (numbered_file 502) 0 [] [] =
     (''501,1,1.00'' @ [CHR 0x0A], 501, numbered_items 500, [Warn_MaxCapacity]) \<and>
   load_inventory strtod_dec (Inr (numbered_file 502)) [] =
     (True, numbered_items 500, [Warn_MaxCapacity, Info_Loaded 500])"
  by (simp add: valid_records_numbered_file load_loop_numbered_file_502 load_inventory_def MAX_ITEMS_def)

end
